theory Spec2Isabelle
  imports Main
begin

section \<open>The re-entrant thread pool of tiledb/sm/misc/thread\_pool.cc\<close>

text \<open>
  The pool is modelled as explicit state passing over one record \<open>sys\<close> that holds every
  pool object, the process-wide registry \<open>tp_index\<close>, the shared completion records of the
  task futures and the world that the submitted closures act on.

  Conventions of the model:
  \<^item> An agent (thread) runs the steps of an operation, and each submitted closure,
    without interference from other agents, up to the points where it waits; the
    sections that the mutexes of the source protect lie inside these steps.
  \<^item> Where an operation waits for another agent (\<open>task.wait()\<close>, \<open>join\<close>), the other
    agents run. What they do while a waiter sleeps in \<open>task.wait()\<close> is the schedule
    \<open>others\<close> of the state, a list of actions of other threads; the waiter goes on as soon
    as its record is completed, and the outcome is \<open>Blocked\<close> when the schedule ends before.
  \<^item> A worker thread is either at the top of its loop or holds the unit it has popped
    and is running (\<open>running\<close>). It makes progress only where the model runs it: by an
    action of the schedule, or when \<open>terminate\<close> joins it.
  \<^item> A closure is a function on the world \<open>'w\<close> returning a status; closures that call
    back into the pool are outside the model.
  \<^item> \<open>uint64_t\<close> values are natural numbers: the only subtraction of the source,
    \<open>concurrency_level - 1\<close>, is guarded by \<open>concurrency_level \<noteq> 0\<close>.
  \<^item> Calls to the logger (\<open>LOG_ERROR\<close>, \<open>LOG_STATUS\<close>) write to an external sink and are
    not part of the state.
\<close>

subsection \<open>Status, futures and packaged tasks\<close>

text \<open>
  Modelled from the spec: the class \<open>Status\<close> is not among the sources; the spec defines it
  as the sum of \<open>Ok\<close> and \<open>Error(message)\<close>.
\<close>

datatype status = Ok | Error string

definition ok :: "status \<Rightarrow> bool" where
  "ok st = (st = Ok)"

text \<open>
  Modelled from the spec: \<open>Status::ThreadPoolError(msg)\<close> builds an error status that
  carries the message.
\<close>

definition ThreadPoolError :: "string \<Rightarrow> status" where
  "ThreadPoolError msg = Error msg"

text \<open>
  Modelled from the spec: the header thread\_pool.h (classes \<open>Task\<close>, \<open>PackagedTask\<close> and
  their shared task state) is not among the sources. The spec gives a completion handle
  a state in \<open>{Pending, Running, Completed}\<close> and a result that is populated on the
  transition to \<open>Completed\<close>. Here a completion record is \<open>None\<close> until its closure has
  run, so while the handle is \<open>Pending\<close> or \<open>Running\<close> (a worker holds the unit it has
  popped), and \<open>Some r\<close>, with \<open>r\<close> the result, from then on.
\<close>

type_synonym completion = "status option"

text \<open>
  Modelled from the spec: the class \<open>Task<Status>\<close> of the missing header. A future points
  to its shared completion record; the default-constructed future points to none and is
  the invalid handle that a failed submission returns.
\<close>

type_synonym task = "nat option"

text \<open>
  Modelled from the spec: the class \<open>PackagedTask\<close> of the missing header. A packaged task
  owns the closure and points to the completion record it will fill; the
  default-constructed one has neither and is not valid.
\<close>

record 'w packaged_task =
  fn :: "('w \<Rightarrow> status \<times> 'w) option"
  task_state :: "nat option"

text \<open>Modelled from the spec: the default-constructed packaged task.\<close>

definition empty_task :: "'w packaged_task" where
  "empty_task = \<lparr>fn = None, task_state = None\<rparr>"

text \<open>
  Modelled from the spec: \<open>PackagedTask::valid()\<close>, which the waiting loop and the worker
  test before they run what they popped.
\<close>

definition pt_valid :: "'w packaged_task \<Rightarrow> bool" where
  "pt_valid t = (fn t \<noteq> None \<and> task_state t \<noteq> None)"

text \<open>
  Modelled from the spec: \<open>PackagedTask::get_future()\<close>, the handle of the packaged work unit.
\<close>

definition get_future :: "'w packaged_task \<Rightarrow> task" where
  "get_future t = task_state t"

text \<open>Modelled from the spec: \<open>Task::valid()\<close>, the \<open>is_valid()\<close> of a handle.\<close>

definition task_valid :: "task \<Rightarrow> bool" where
  "task_valid t = (t \<noteq> None)"

subsection \<open>Pools and the system state\<close>

text \<open>
  The members of \<open>ThreadPool\<close>: \<open>concurrency_level_\<close> (here \<open>concurrency_lvl\<close>, the name
  \<open>concurrency_level\<close> being the accessor's), \<open>should_terminate_\<close>, \<open>task_stack_\<close> with its
  top at the head of the list, and \<open>threads_\<close>, the identifiers of the pool's threads in
  the order of their creation.
\<close>

record 'w thread_pool =
  concurrency_lvl :: nat
  should_terminate :: bool
  task_stack :: "'w packaged_task list"
  threads :: "nat list"

text \<open>The constructor \<open>ThreadPool::ThreadPool()\<close>.\<close>

definition ThreadPool :: "'w thread_pool" where
  "ThreadPool = \<lparr>concurrency_lvl = 0, should_terminate = False, task_stack = [], threads = []\<rparr>"

text \<open>
  An operation either returns or is left waiting for another agent; a worker either
  leaves its routine or sleeps on the condition variable of the stack.
\<close>

datatype 'a outcome = Returned 'a | Blocked

datatype worker_outcome = Exited | Waiting

text \<open>
  What another thread may do while a waiter sleeps: a worker \<open>t\<close> of the pool \<open>p\<close> pops the
  top of the stack and starts to run it (\<open>Take t p\<close>) or goes on from where it is until it
  sleeps or leaves its routine (\<open>Resume t p\<close>); some thread submits a closure to a pool
  (\<open>Submit p f\<close>), does one round of its own waiting loop (\<open>Help tid p a\<close>), terminates a
  pool or initializes one.
\<close>

datatype 'w action =
    Take nat nat
  | Resume nat nat
  | Submit nat "'w \<Rightarrow> status \<times> 'w"
  | Help nat nat nat
  | Terminate nat
  | Init "nat \<Rightarrow> string option" nat nat

text \<open>
  The state of the process: the pools by identifier (each one as constructed until it
  is initialized), the static registry \<open>tp_index_\<close> from thread identifiers to pools, the
  completion records by address with the next free address, the next thread identifier,
  the threads whose routine has returned, the unit that each worker has popped and is
  running, the schedule of the other threads, and the world of the closures.
\<close>

record 'w sys =
  pools :: "nat \<Rightarrow> 'w thread_pool"
  tp_index :: "nat \<rightharpoonup> nat"
  handles :: "nat \<Rightarrow> completion"
  next_handle :: nat
  next_tid :: nat
  finished :: "nat set"
  running :: "nat \<rightharpoonup> 'w packaged_task"
  others :: "'w action list"
  world :: 'w

text \<open>A process in which no pool has been initialized and no thread has been created.\<close>

definition sys0 :: "'w \<Rightarrow> 'w sys" where
  "sys0 w = \<lparr>pools = (\<lambda>_. ThreadPool), tp_index = Map.empty,
             handles = (\<lambda>_. None),
             next_handle = 0, next_tid = 0, finished = {}, running = Map.empty,
             others = [], world = w\<rparr>"

definition upd_pool :: "nat \<Rightarrow> ('w thread_pool \<Rightarrow> 'w thread_pool) \<Rightarrow> 'w sys \<Rightarrow> 'w sys" where
  "upd_pool p g s = s\<lparr>pools := (pools s)(p := g (pools s p))\<rparr>"

text \<open>
  Modelled from the spec: \<open>done()\<close> tells whether the handle is \<open>Completed\<close>. It is called
  on valid futures only.
\<close>

definition task_done :: "nat \<Rightarrow> 'w sys \<Rightarrow> bool" where
  "task_done a s = (handles s a \<noteq> None)"

text \<open>
  Modelled from the spec: running a packaged task executes the closure, writes the
  resulting status into the associated handle and makes the handle \<open>Completed\<close>. The
  source calls it on valid packaged tasks only.
\<close>

definition pt_call :: "'w packaged_task \<Rightarrow> 'w sys \<Rightarrow> 'w sys" where
  "pt_call t s =
     (case fn t of
        None \<Rightarrow> s
      | Some f \<Rightarrow>
          (case task_state t of
             None \<Rightarrow> s
           | Some a \<Rightarrow>
               s\<lparr>handles := (handles s)(a \<mapsto> fst (f (world s))),
                 world := snd (f (world s))\<rparr>))"

subsection \<open>The registry\<close>

text \<open>\<open>ThreadPool::add_tp_index\<close>, \<open>remove_tp_index\<close> and \<open>lookup_tp\<close>.\<close>

definition add_tp_index :: "nat \<Rightarrow> 'w sys \<Rightarrow> 'w sys" where
  "add_tp_index this s =
     s\<lparr>tp_index := fold (\<lambda>thread m. m(thread \<mapsto> this)) (threads (pools s this)) (tp_index s)\<rparr>"

definition remove_tp_index :: "nat \<Rightarrow> 'w sys \<Rightarrow> 'w sys" where
  "remove_tp_index this s =
     s\<lparr>tp_index := fold (\<lambda>thread m. m(thread := None)) (threads (pools s this)) (tp_index s)\<rparr>"

definition lookup_tp :: "nat \<Rightarrow> nat \<Rightarrow> 'w sys \<Rightarrow> nat" where
  "lookup_tp tid this s = (case tp_index s tid of Some tp \<Rightarrow> tp | None \<Rightarrow> this)"

subsection \<open>Initialization\<close>

text \<open>\<open>std::to_string\<close> on an unsigned integer: its decimal digits.\<close>

definition digit_char :: "nat \<Rightarrow> char" where
  "digit_char d = ''0123456789'' ! d"

function to_string :: "nat \<Rightarrow> string" where
  "to_string n =
     (if n < 10 then [digit_char n] else to_string (n div 10) @ [digit_char (n mod 10)])"
  by pat_completeness auto
termination
  by (relation "measure id") auto

text \<open>
  \<open>threads_.emplace_back([this]() { worker(*this); })\<close> when the thread is created: the
  new thread gets a fresh identifier and is appended to the pool's thread list.
\<close>

definition emplace_back :: "nat \<Rightarrow> 'w sys \<Rightarrow> 'w sys" where
  "emplace_back this s =
     (upd_pool this (\<lambda>p. p\<lparr>threads := threads p @ [next_tid s]\<rparr>) s)\<lparr>next_tid := Suc (next_tid s)\<rparr>"

text \<open>
  The spawning loop of \<open>ThreadPool::init\<close>. Whether the operating system creates the
  \<open>i\<close>-th thread is not decided by the program: \<open>thr i = None\<close> when it does, and
  \<open>thr i = Some what\<close> when \<open>emplace_back\<close> throws an exception \<open>e\<close> with \<open>e.what() = what\<close>.
\<close>

function spawn_loop ::
  "(nat \<Rightarrow> string option) \<Rightarrow> nat \<Rightarrow> nat \<Rightarrow> nat \<Rightarrow> nat \<Rightarrow> 'w sys \<Rightarrow> status \<times> 'w sys" where
  "spawn_loop thr this concurrency_level num_threads i s =
     (if i < num_threads then
        (case thr i of
           None \<Rightarrow> spawn_loop thr this concurrency_level num_threads (Suc i) (emplace_back this s)
         | Some what \<Rightarrow>
             (ThreadPoolError (''Error initializing thread pool of concurrencylevel '' @
                               to_string concurrency_level @ ''; '' @ what), s))
      else (Ok, s))"
  by pat_completeness auto
termination
  by (relation "measure (\<lambda>(thr, this, concurrency_level, num_threads, i, s). num_threads - i)") auto

subsection \<open>Workers\<close>

text \<open>
  The block of \<open>ThreadPool::worker\<close> that holds the stack mutex, once the wait on the
  condition variable is over: take the top of the stack if there is one.
\<close>

definition worker_pop :: "nat \<Rightarrow> 'w sys \<Rightarrow> 'w packaged_task \<times> 'w sys" where
  "worker_pop pool s =
     (case task_stack (pools s pool) of
        [] \<Rightarrow> (empty_task, s)
      | t # rest \<Rightarrow> (t, upd_pool pool (\<lambda>p. p\<lparr>task_stack := rest\<rparr>) s))"

definition run_if_valid :: "'w packaged_task \<Rightarrow> 'w sys \<Rightarrow> 'w sys" where
  "run_if_valid t s = (if pt_valid t then pt_call t s else s)"

text \<open>
  \<open>ThreadPool::worker\<close>, from the top of its loop. The thread sleeps on the condition
  variable (\<open>Waiting\<close>) while the pool is not terminating and the stack is empty;
  otherwise it pops, runs what it popped, and leaves the loop when the terminate flag
  is set.
\<close>

function worker :: "nat \<Rightarrow> 'w sys \<Rightarrow> worker_outcome \<times> 'w sys" where
  "worker pool s =
     (if \<not> (should_terminate (pools s pool) \<or> task_stack (pools s pool) \<noteq> []) then (Waiting, s)
      else
        (let s' = run_if_valid (fst (worker_pop pool s)) (snd (worker_pop pool s))
         in if should_terminate (pools s' pool) then (Exited, s') else worker pool s'))"
  by pat_completeness auto
termination
  by (relation "measure (\<lambda>(pool, s). length (task_stack (pools s pool)))")
     (auto simp: run_if_valid_def pt_call_def pt_valid_def empty_task_def worker_pop_def upd_pool_def
           split: option.splits list.splits)

text \<open>
  The rest of a round of \<open>ThreadPool::worker\<close> after the block that holds the mutex, for
  a worker that has popped \<open>task\<close>: run it if it is valid, leave the loop when the
  terminate flag is set, go to the top of the loop otherwise.
\<close>

definition worker_rest :: "nat \<Rightarrow> 'w packaged_task \<Rightarrow> 'w sys \<Rightarrow> worker_outcome \<times> 'w sys" where
  "worker_rest pool task s =
     (let s' = run_if_valid task s
      in if should_terminate (pools s' pool) then (Exited, s') else worker pool s')"

text \<open>
  The worker thread \<open>t\<close> of \<open>pool\<close>, at the top of its loop and awake, does the block that
  holds the mutex and is then holding what it popped, the unit it is about to run.
\<close>

definition worker_take :: "nat \<Rightarrow> nat \<Rightarrow> 'w sys \<Rightarrow> 'w sys" where
  "worker_take t pool s =
     (if t \<in> finished s \<or> running s t \<noteq> None \<or>
         \<not> (should_terminate (pools s pool) \<or> task_stack (pools s pool) \<noteq> [])
      then s
      else (snd (worker_pop pool s))\<lparr>running := (running s)(t \<mapsto> fst (worker_pop pool s))\<rparr>)"

text \<open>
  Scheduling the worker thread \<open>t\<close> of \<open>pool\<close>: it goes on from where it is, the rest of
  its round when it holds a unit and the top of its loop otherwise, until it sleeps or
  leaves its routine; a thread whose routine has returned does nothing more.
\<close>

definition run_thread :: "nat \<Rightarrow> nat \<Rightarrow> 'w sys \<Rightarrow> worker_outcome \<times> 'w sys" where
  "run_thread t pool s =
     (if t \<in> finished s then (Exited, s)
      else
        (case (case running s t of
                 None \<Rightarrow> worker pool s
               | Some task \<Rightarrow> worker_rest pool task (s\<lparr>running := (running s)(t := None)\<rparr>)) of
           (Exited, s') \<Rightarrow> (Exited, s'\<lparr>finished := insert t (finished s')\<rparr>)
         | (Waiting, s') \<Rightarrow> (Waiting, s')))"

text \<open>
  \<open>t.join()\<close>: the caller waits until the routine of thread \<open>t\<close> has returned, and waits
  for ever when that thread sleeps on the condition variable.
\<close>

definition join :: "nat \<Rightarrow> nat \<Rightarrow> 'w sys \<Rightarrow> unit outcome \<times> 'w sys" where
  "join t pool s =
     (case run_thread t pool s of
        (Exited, s') \<Rightarrow> (Returned (), s')
      | (Waiting, s') \<Rightarrow> (Blocked, s'))"

fun join_all :: "nat \<Rightarrow> nat list \<Rightarrow> 'w sys \<Rightarrow> unit outcome \<times> 'w sys" where
  "join_all this [] s = (Returned (), s)"
| "join_all this (t # ts) s =
     (case join t this s of
        (Returned _, s') \<Rightarrow> join_all this ts s'
      | (Blocked, s') \<Rightarrow> (Blocked, s'))"

subsection \<open>Shutdown\<close>

text \<open>
  \<open>ThreadPool::terminate\<close>: set the flag (the notification wakes the sleeping workers),
  remove the pool's threads from the registry, join every thread in order, clear the
  list of threads.
\<close>

definition terminate :: "nat \<Rightarrow> 'w sys \<Rightarrow> unit outcome \<times> 'w sys" where
  "terminate this s =
     (let s1 = upd_pool this (\<lambda>p. p\<lparr>should_terminate := True\<rparr>) s;
          s2 = remove_tp_index this s1
      in case join_all this (threads (pools s2 this)) s2 of
           (Returned _, s3) \<Rightarrow> (Returned (), upd_pool this (\<lambda>p. p\<lparr>threads := []\<rparr>) s3)
         | (Blocked, s3) \<Rightarrow> (Blocked, s3))"

text \<open>\<open>ThreadPool::init\<close>.\<close>

definition init :: "(nat \<Rightarrow> string option) \<Rightarrow> nat \<Rightarrow> nat \<Rightarrow> 'w sys \<Rightarrow> status outcome \<times> 'w sys" where
  "init thr this concurrency_level s =
     (if concurrency_level = 0 then
        (Returned (ThreadPoolError
           ''Unable to initialize a thread pool with a concurrency level of 0.''), s)
      else
        (case spawn_loop thr this concurrency_level (concurrency_level - 1) 0 s of
           (st, s1) \<Rightarrow>
             if \<not> ok st then
               (case terminate this s1 of
                  (Returned _, s2) \<Rightarrow> (Returned st, s2)
                | (Blocked, s2) \<Rightarrow> (Blocked, s2))
             else
               (Returned st,
                add_tp_index this (upd_pool this (\<lambda>p. p\<lparr>concurrency_lvl := concurrency_level\<rparr>) s1))))"

text \<open>\<open>ThreadPool::concurrency_level\<close>.\<close>

definition concurrency_level :: "nat \<Rightarrow> 'w sys \<Rightarrow> nat" where
  "concurrency_level this s = concurrency_lvl (pools s this)"

subsection \<open>Submission\<close>

text \<open>
  \<open>ThreadPool::execute\<close>. A new completion record is allocated for the packaged task;
  with a concurrency level above one the task is pushed on the stack, otherwise it is run
  by the caller.
\<close>

definition execute :: "nat \<Rightarrow> ('w \<Rightarrow> status \<times> 'w) \<Rightarrow> 'w sys \<Rightarrow> task \<times> 'w sys" where
  "execute this f s =
     (if concurrency_lvl (pools s this) = 0 then (None, s)
      else if should_terminate (pools s this) then (None, s)
      else
        (let a = next_handle s;
             s1 = s\<lparr>handles := (handles s)(a := None), next_handle := Suc a\<rparr>;
             t = \<lparr>fn = Some f, task_state = Some a\<rparr>;
             future = get_future t
         in if concurrency_lvl (pools s1 this) > 1
            then (future, upd_pool this (\<lambda>p. p\<lparr>task_stack := t # task_stack p\<rparr>) s1)
            else (future, pt_call t s1)))"

subsection \<open>Waiting\<close>

text \<open>
  One round of the loop of \<open>ThreadPool::wait_or_work\<close> for the thread \<open>tid\<close> waiting on the
  completion record \<open>a\<close> through the pool \<open>this\<close>: \<open>None\<close> when the loop is left, otherwise
  the state after the popped task has been run.
\<close>

definition wait_step :: "nat \<Rightarrow> nat \<Rightarrow> nat \<Rightarrow> 'w sys \<Rightarrow> 'w sys option" where
  "wait_step tid this a s =
     (if task_done a s then None
      else
        (let tp = lookup_tp tid this s
         in case task_stack (pools s tp) of
              [] \<Rightarrow> None
            | inner_task # rest \<Rightarrow>
                Some (run_if_valid inner_task (upd_pool tp (\<lambda>p. p\<lparr>task_stack := rest\<rparr>) s))))"

function wait_loop :: "nat \<Rightarrow> nat \<Rightarrow> nat \<Rightarrow> 'w sys \<Rightarrow> 'w sys" where
  "wait_loop tid this a s =
     (case wait_step tid this a s of
        None \<Rightarrow> s
      | Some s' \<Rightarrow> wait_loop tid this a s')"
  by pat_completeness auto
termination
  by (relation "measure (\<lambda>(tid, this, a, s). length (task_stack (pools s (lookup_tp tid this s))))")
     (auto simp: wait_step_def lookup_tp_def run_if_valid_def pt_call_def upd_pool_def Let_def
           split: option.splits list.splits if_splits)

text \<open>The effect of an action of another thread.\<close>

fun act :: "'w action \<Rightarrow> 'w sys \<Rightarrow> 'w sys" where
  "act (Take t p) s = worker_take t p s"
| "act (Resume t p) s = snd (run_thread t p s)"
| "act (Submit p f) s = snd (execute p f s)"
| "act (Help tid p a) s = (case wait_step tid p a s of None \<Rightarrow> s | Some s' \<Rightarrow> s')"
| "act (Terminate p) s = snd (terminate p s)"
| "act (Init thr p n) s = snd (init thr p n s)"

text \<open>
  Modelled from the spec: \<open>task.wait(); return task.get();\<close> on the record \<open>a\<close>. \<open>wait()\<close>
  blocks until the record is completed and \<open>get()\<close> reads its result. While the waiter is
  blocked the other threads act, one action of the schedule after the other; the
  schedule that is left is put back into the state. When the schedule ends with the
  record not completed, the waiter is still blocked.
\<close>

fun await :: "nat \<Rightarrow> 'w action list \<Rightarrow> 'w sys \<Rightarrow> status outcome \<times> 'w sys" where
  "await a [] s =
     (case handles s a of
        None \<Rightarrow> (Blocked, s\<lparr>others := []\<rparr>)
      | Some st \<Rightarrow> (Returned st, s\<lparr>others := []\<rparr>))"
| "await a (x # xs) s =
     (case handles s a of
        None \<Rightarrow> await a xs (act x s)
      | Some st \<Rightarrow> (Returned st, s\<lparr>others := x # xs\<rparr>))"

text \<open>\<open>ThreadPool::wait_or_work\<close>: the loop, then \<open>task.wait()\<close> and \<open>task.get()\<close>.\<close>

definition wait_or_work :: "nat \<Rightarrow> nat \<Rightarrow> nat \<Rightarrow> 'w sys \<Rightarrow> status outcome \<times> 'w sys" where
  "wait_or_work tid this a s =
     (let s' = wait_loop tid this a s
      in await a (others s') s')"

text \<open>
  The loop of \<open>ThreadPool::wait_all_status\<close> over the futures, \<open>statuses\<close> being the vector
  built so far. A future is invalid exactly when it is \<open>None\<close>.
\<close>

fun wait_all_status_loop ::
  "nat \<Rightarrow> nat \<Rightarrow> task list \<Rightarrow> status list \<Rightarrow> 'w sys \<Rightarrow> status list outcome \<times> 'w sys" where
  "wait_all_status_loop tid this [] statuses s = (Returned statuses, s)"
| "wait_all_status_loop tid this (t # tasks) statuses s =
     (case t of
        None \<Rightarrow>
          wait_all_status_loop tid this tasks (statuses @ [ThreadPoolError ''Invalid task future'']) s
      | Some a \<Rightarrow>
          (case wait_or_work tid this a s of
             (Returned st, s') \<Rightarrow> wait_all_status_loop tid this tasks (statuses @ [st]) s'
           | (Blocked, s') \<Rightarrow> (Blocked, s')))"

definition wait_all_status :: "nat \<Rightarrow> nat \<Rightarrow> task list \<Rightarrow> 'w sys \<Rightarrow> status list outcome \<times> 'w sys" where
  "wait_all_status tid this tasks s = wait_all_status_loop tid this tasks [] s"

text \<open>The loop of \<open>ThreadPool::wait_all\<close> over the statuses.\<close>

fun wait_all_loop :: "status list \<Rightarrow> status" where
  "wait_all_loop [] = Ok"
| "wait_all_loop (st # statuses) = (if \<not> ok st then st else wait_all_loop statuses)"

definition wait_all :: "nat \<Rightarrow> nat \<Rightarrow> task list \<Rightarrow> 'w sys \<Rightarrow> status outcome \<times> 'w sys" where
  "wait_all tid this tasks s =
     (case wait_all_status tid this tasks s of
        (Returned statuses, s') \<Rightarrow> (Returned (wait_all_loop statuses), s')
      | (Blocked, s') \<Rightarrow> (Blocked, s'))"

subsection \<open>Derived notions used in the statements\<close>

text \<open>
  The last round of a worker that finds the terminate flag set: it pops the top of the
  stack if there is one, and runs it.
\<close>

definition worker_final :: "nat \<Rightarrow> 'w sys \<Rightarrow> 'w sys" where
  "worker_final pool s = run_if_valid (fst (worker_pop pool s)) (snd (worker_pop pool s))"

text \<open>
  What the thread \<open>t\<close> of \<open>pool\<close> does when it is joined with the terminate flag set: the
  rest of its round when it holds a unit, one last round otherwise, and nothing when its
  routine has returned already.
\<close>

definition thread_final :: "nat \<Rightarrow> nat \<Rightarrow> 'w sys \<Rightarrow> 'w sys" where
  "thread_final t pool s =
     (if t \<in> finished s then s
      else (case running s t of
              None \<Rightarrow> worker_final pool s
            | Some task \<Rightarrow> run_if_valid task (s\<lparr>running := (running s)(t := None)\<rparr>))
           \<lparr>finished := insert t (finished s)\<rparr>)"

text \<open>A thread that is at the top of its loop: it holds no unit and has not returned.\<close>

definition idle :: "'w sys \<Rightarrow> nat \<Rightarrow> bool" where
  "idle s t = (t \<notin> finished s \<and> running s t = None)"

text \<open>
  Every registry entry belongs to a thread that is in the thread list of the pool it
  names. \<open>add_tp_index\<close> only creates such entries.
\<close>

definition registry_ok :: "'w sys \<Rightarrow> bool" where
  "registry_ok s = (\<forall>t q. tp_index s t = Some q \<longrightarrow> t \<in> set (threads (pools s q)))"

text \<open>The state after \<open>k\<close> more threads have been created for the pool \<open>this\<close>.\<close>

definition spawned :: "nat \<Rightarrow> nat \<Rightarrow> 'w sys \<Rightarrow> 'w sys" where
  "spawned this k s =
     (upd_pool this (\<lambda>p. p\<lparr>threads := threads p @ [next_tid s ..< next_tid s + k]\<rparr>) s)
       \<lparr>next_tid := next_tid s + k\<rparr>"

text \<open>The records that the packaged tasks of a stack point to, from the top.\<close>

fun ptrs :: "'w packaged_task list \<Rightarrow> nat list" where
  "ptrs [] = []"
| "ptrs (t # ts) = (case task_state t of None \<Rightarrow> ptrs ts | Some a \<Rightarrow> a # ptrs ts)"

text \<open>The record that the unit a thread is running points to.\<close>

definition rptr :: "'w sys \<Rightarrow> nat \<Rightarrow> nat option" where
  "rptr s th = (case running s th of None \<Rightarrow> None | Some t \<Rightarrow> task_state t)"

text \<open>
  The completion records are in order: no record beyond the allocated ones is
  completed; every packaged task that is on a stack or held by a worker points to an
  allocated record that is not completed, and no two of them point to the same record.
  This holds in a new process and every operation keeps it: \<open>execute\<close> allocates a new
  record for each packaged task, and only the run of a packaged task completes a record.
\<close>

definition records_ok :: "'w sys \<Rightarrow> bool" where
  "records_ok s =
     ((\<forall>a. next_handle s \<le> a \<longrightarrow> handles s a = None) \<and>
      (\<forall>q. distinct (ptrs (task_stack (pools s q))) \<and>
           (\<forall>a \<in> set (ptrs (task_stack (pools s q))). a < next_handle s \<and> handles s a = None)) \<and>
      (\<forall>q q'. q \<noteq> q' \<longrightarrow>
           set (ptrs (task_stack (pools s q))) \<inter> set (ptrs (task_stack (pools s q'))) = {}) \<and>
      (\<forall>th a. rptr s th = Some a \<longrightarrow>
           a < next_handle s \<and> handles s a = None \<and>
           (\<forall>q. a \<notin> set (ptrs (task_stack (pools s q)))) \<and>
           (\<forall>th'. th' \<noteq> th \<longrightarrow> rptr s th' \<noteq> Some a)))"

text \<open>The packaged task \<open>t\<close> is on a stack or held by a thread that runs it.\<close>

definition holds :: "'w sys \<Rightarrow> 'w packaged_task \<Rightarrow> bool" where
  "holds s t = ((\<exists>q. t \<in> set (task_stack (pools s q))) \<or> (\<exists>th. running s th = Some t))"

text \<open>
  What the operations of the pool can have done between \<open>s\<close> and \<open>s'\<close>: the records are
  in order in \<open>s'\<close>; no record has been freed; a completed record has not changed; an
  allocated record that has been completed in between holds what the closure of a
  packaged task returned that pointed to it in \<open>s\<close>; and the packaged tasks that point to
  the records allocated in \<open>s\<close> were there in \<open>s\<close>.
\<close>

definition evolves :: "'w sys \<Rightarrow> 'w sys \<Rightarrow> bool" where
  "evolves s s' =
     (records_ok s' \<and> next_handle s \<le> next_handle s' \<and>
      (\<forall>a r. handles s a = Some r \<longrightarrow> handles s' a = Some r) \<and>
      (\<forall>a r. a < next_handle s \<longrightarrow> handles s a = None \<longrightarrow> handles s' a = Some r \<longrightarrow>
         (\<exists>t f w. holds s t \<and> task_state t = Some a \<and> fn t = Some f \<and> r = fst (f w))) \<and>
      (\<forall>t a. holds s' t \<longrightarrow> task_state t = Some a \<longrightarrow> a < next_handle s \<longrightarrow> holds s t))"

text \<open>
  The part of the state that the order of the records is about: the records, the next
  free address, the stacks and the units held by the workers.
\<close>

definition core ::
  "'w sys \<Rightarrow> (nat \<Rightarrow> completion) \<times> nat \<times> (nat \<Rightarrow> 'w packaged_task list) \<times> (nat \<rightharpoonup> 'w packaged_task)" where
  "core s = (handles s, next_handle s, (\<lambda>q. task_stack (pools s q)), running s)"

text \<open>
  The record \<open>a\<close> is completed, or a valid packaged task pointing to it is on the stack of
  \<open>host\<close>.
\<close>

definition pending_or_done :: "nat \<Rightarrow> nat \<Rightarrow> 'w sys \<Rightarrow> bool" where
  "pending_or_done host a s =
     (handles s a \<noteq> None \<or>
      (\<exists>t \<in> set (task_stack (pools s host)). pt_valid t \<and> task_state t = Some a))"

text \<open>
  What a thread whose host pool is \<open>host\<close> may have done between \<open>s\<close> and \<open>s'\<close> while
  waiting: the registry is the same, the stack of \<open>host\<close> has lost some tasks from its top,
  completed records are still completed, and a record that was completed or pending on
  that stack is so still.
\<close>

definition helped :: "nat \<Rightarrow> 'w sys \<Rightarrow> 'w sys \<Rightarrow> bool" where
  "helped host s s' =
     (tp_index s' = tp_index s \<and>
      (\<exists>k. task_stack (pools s' host) = drop k (task_stack (pools s host))) \<and>
      (\<forall>b. handles s b \<noteq> None \<longrightarrow> handles s' b \<noteq> None) \<and>
      (\<forall>b. pending_or_done host b s \<longrightarrow> pending_or_done host b s'))"

text \<open>
  A valid packaged task that points to the record \<open>a\<close> is held by a worker that the
  schedule \<open>xs\<close> resumes.
\<close>

definition resumed :: "nat \<Rightarrow> 'w action list \<Rightarrow> 'w sys \<Rightarrow> bool" where
  "resumed a xs s =
     (\<exists>th p t. Resume th p \<in> set xs \<and> th \<notin> finished s \<and> running s th = Some t \<and>
        pt_valid t \<and> task_state t = Some a)"

text \<open>
  The record \<open>a\<close> is completed or pending on the stack of \<open>host\<close>, or the unit that
  points to it is being run by a worker that the schedule resumes.
\<close>

definition covered :: "nat \<Rightarrow> nat \<Rightarrow> 'w action list \<Rightarrow> 'w sys \<Rightarrow> bool" where
  "covered host a xs s = (pending_or_done host a s \<or> resumed a xs s)"

text \<open>A schedule in which the other threads are workers that go on with what they do.\<close>

fun resume_only :: "'w action list \<Rightarrow> bool" where
  "resume_only [] = True"
| "resume_only (Resume th p # xs) = resume_only xs"
| "resume_only (x # xs) = False"

subsection \<open>Example closures and schedules\<close>

text \<open>
  The example world is the list of the marks left by the closures that have run, in the
  order in which they ran.
\<close>

definition mark :: "nat \<Rightarrow> status \<Rightarrow> nat list \<Rightarrow> status \<times> nat list" where
  "mark n st w = (st, w @ [n])"

text \<open>An operating system that creates every thread it is asked for.\<close>

definition no_failure :: "nat \<Rightarrow> string option" where
  "no_failure i = None"

text \<open>An operating system that refuses the thread of round \<open>j\<close> of the spawning loop.\<close>

definition fails_at :: "nat \<Rightarrow> string \<Rightarrow> nat \<Rightarrow> string option" where
  "fails_at j what i = (if i = j then Some what else None)"

text \<open>A process in which nothing has happened yet, for the example world.\<close>

abbreviation fresh :: "nat list sys" where
  "fresh \<equiv> sys0 []"

text \<open>Pool 0 after \<open>init(1)\<close>: no worker.\<close>

definition pool1 :: "nat list sys" where
  "pool1 = snd (init no_failure 0 1 fresh)"

text \<open>Pool 0 after \<open>init(2)\<close>: one worker, thread 0.\<close>

definition pool2 :: "nat list sys" where
  "pool2 = snd (init no_failure 0 2 fresh)"

text \<open>Then two closures are submitted, marked 1 and 2, before any worker is scheduled.\<close>

definition busy2 :: "nat list sys" where
  "busy2 = snd (execute 0 (mark 2 Ok) (snd (execute 0 (mark 1 Ok) pool2)))"

text \<open>\<open>busy2\<close> when \<open>terminate\<close> has just set the flag of pool 0.\<close>

definition stopping2 :: "nat list sys" where
  "stopping2 = upd_pool 0 (\<lambda>p. p\<lparr>should_terminate := True\<rparr>) busy2"

text \<open>Pool 0 after an \<open>init(3)\<close> whose second thread could not be created.\<close>

definition failed3 :: "nat list sys" where
  "failed3 = snd (init (fails_at 1 ''Resource temporarily unavailable'') 0 3 fresh)"

text \<open>
  Two pools: pool 0 as in \<open>busy2\<close>, and pool 1 after \<open>init(2)\<close> (its worker is thread 1)
  and one submission, marked 3, whose completion record is 2.
\<close>

definition two_pools :: "nat list sys" where
  "two_pools = snd (execute 1 (mark 3 Ok) (snd (init no_failure 1 2 busy2)))"

text \<open>
  Pool 0 after \<open>init(2)\<close> and two submissions: the first closure fails with "boom"
  (record 0), the second succeeds (record 1).
\<close>

definition mixed2 :: "nat list sys" where
  "mixed2 = snd (execute 0 (mark 2 Ok) (snd (execute 0 (mark 1 (Error ''boom'')) pool2)))"

text \<open>\<open>mixed2\<close> after an unregistered thread has run both tasks while waiting.\<close>

definition waited2 :: "nat list sys" where
  "waited2 = mixed2\<lparr>pools := (pools mixed2)(0 := (pools mixed2 0)\<lparr>task_stack := []\<rparr>),
                    handles := [0 \<mapsto> Error ''boom'', 1 \<mapsto> Ok], world := [2, 1]\<rparr>"

text \<open>
  Pool 0 after \<open>init(2)\<close>: a closure that fails with "boom" is submitted (record 0) and
  the worker pops it and starts to run it; then two more closures are submitted (records
  1 and 2), which stay on the stack.
\<close>

definition running3 :: "nat list sys" where
  "running3 =
     snd (execute 0 (mark 3 Ok)
       (snd (execute 0 (mark 2 Ok)
         (worker_take 0 0 (snd (execute 0 (mark 1 (Error ''boom'')) pool2))))))"

text \<open>The same, with a schedule in which the worker goes on.\<close>

definition resumed3 :: "nat list sys" where
  "resumed3 = running3\<lparr>others := [Resume 0 0]\<rparr>"

text \<open>
  \<open>resumed3\<close> after an unregistered thread has waited for the three records: it has run
  the units marked 3 and 2, then the worker has finished the unit marked 1.
\<close>

definition waited3 :: "nat list sys" where
  "waited3 = running3\<lparr>pools := (pools running3)(0 := (pools running3 0)\<lparr>task_stack := []\<rparr>),
                      handles := [0 \<mapsto> Error ''boom'', 1 \<mapsto> Ok, 2 \<mapsto> Ok],
                      running := Map.empty, world := [3, 2, 1]\<rparr>"

text \<open>The recursive equations are unfolded by hand, not by the simplifier.\<close>

declare worker.simps [simp del]
declare wait_loop.simps [simp del]
declare spawn_loop.simps [simp del]
declare to_string.simps [simp del]

section \<open>Lemmas\<close>

subsection \<open>Frame lemmas\<close>

lemma pools_run_if_valid [simp]: "pools (run_if_valid t s) = pools s"
  by (simp add: run_if_valid_def pt_call_def split: option.splits)

lemma tp_index_run_if_valid [simp]: "tp_index (run_if_valid t s) = tp_index s"
  by (simp add: run_if_valid_def pt_call_def split: option.splits)

lemma finished_run_if_valid [simp]: "finished (run_if_valid t s) = finished s"
  by (simp add: run_if_valid_def pt_call_def split: option.splits)

lemma running_run_if_valid [simp]: "running (run_if_valid t s) = running s"
  by (simp add: run_if_valid_def pt_call_def split: option.splits)

lemma others_run_if_valid [simp]: "others (run_if_valid t s) = others s"
  by (simp add: run_if_valid_def pt_call_def split: option.splits)

lemma next_handle_run_if_valid [simp]: "next_handle (run_if_valid t s) = next_handle s"
  by (simp add: run_if_valid_def pt_call_def split: option.splits)

lemma pools_upd_pool [simp]: "pools (upd_pool p g s) = (pools s)(p := g (pools s p))"
  by (simp add: upd_pool_def)

lemma tp_index_upd_pool [simp]: "tp_index (upd_pool p g s) = tp_index s"
  by (simp add: upd_pool_def)

lemma finished_upd_pool [simp]: "finished (upd_pool p g s) = finished s"
  by (simp add: upd_pool_def)

lemma handles_upd_pool [simp]: "handles (upd_pool p g s) = handles s"
  by (simp add: upd_pool_def)

lemma world_upd_pool [simp]: "world (upd_pool p g s) = world s"
  by (simp add: upd_pool_def)

lemma running_upd_pool [simp]: "running (upd_pool p g s) = running s"
  by (simp add: upd_pool_def)

lemma others_upd_pool [simp]: "others (upd_pool p g s) = others s"
  by (simp add: upd_pool_def)

lemma next_handle_upd_pool [simp]: "next_handle (upd_pool p g s) = next_handle s"
  by (simp add: upd_pool_def)

lemma upd_pool_id: "g (pools s p) = pools s p \<Longrightarrow> upd_pool p g s = s"
  by (simp add: upd_pool_def)

lemma run_if_valid_done_mono:
  "handles s b \<noteq> None \<Longrightarrow> handles (run_if_valid t s) b \<noteq> None"
  by (simp add: run_if_valid_def pt_call_def split: option.splits)

lemma run_if_valid_completes:
  "pt_valid t \<Longrightarrow> task_state t = Some b \<Longrightarrow> handles (run_if_valid t s) b \<noteq> None"
  by (auto simp: run_if_valid_def pt_call_def pt_valid_def split: option.splits)

lemma run_if_valid_handles:
  "task_state t \<noteq> Some a \<Longrightarrow> handles (run_if_valid t s) a = handles s a"
  by (auto simp: run_if_valid_def pt_call_def split: option.splits)

subsection \<open>Workers and shutdown\<close>

lemma worker_terminating:
  "should_terminate (pools s pool) \<Longrightarrow> worker pool s = (Exited, worker_final pool s)"
  by (subst worker.simps) (simp add: worker_final_def worker_pop_def Let_def split: list.splits)

lemma worker_rest_terminating:
  "should_terminate (pools s pool) \<Longrightarrow> worker_rest pool task s = (Exited, run_if_valid task s)"
  by (simp add: worker_rest_def Let_def)

lemma worker_final_frame:
  "tp_index (worker_final pool s) = tp_index s"
  "finished (worker_final pool s) = finished s"
  "running (worker_final pool s) = running s"
  "others (worker_final pool s) = others s"
  "should_terminate (pools (worker_final pool s) q) = should_terminate (pools s q)"
  "threads (pools (worker_final pool s) q) = threads (pools s q)"
  "concurrency_lvl (pools (worker_final pool s) q) = concurrency_lvl (pools s q)"
  by (simp_all add: worker_final_def worker_pop_def split: list.splits)

lemma worker_final_stack:
  "task_stack (pools (worker_final pool s) q) =
     (if q = pool then tl (task_stack (pools s pool)) else task_stack (pools s q))"
  by (simp add: worker_final_def worker_pop_def split: list.splits)

lemma worker_final_handles:
  "task_stack (pools s pool) = [] \<or> task_state (hd (task_stack (pools s pool))) \<noteq> Some a \<Longrightarrow>
   handles (worker_final pool s) a = handles s a"
  by (auto simp: worker_final_def worker_pop_def run_if_valid_def pt_call_def empty_task_def
           split: list.splits option.splits)

lemma worker_final_done_mono:
  "handles s b \<noteq> None \<Longrightarrow> handles (worker_final pool s) b \<noteq> None"
  unfolding worker_final_def
  by (rule run_if_valid_done_mono) (simp add: worker_pop_def split: list.splits)

lemma join_terminating:
  assumes "should_terminate (pools s pool)"
  shows "join t pool s = (Returned (), thread_final t pool s)"
  using assms
  by (simp add: join_def run_thread_def thread_final_def worker_terminating
      worker_rest_terminating worker_final_frame split: option.splits)

lemma thread_final_frame:
  "tp_index (thread_final t pool s) = tp_index s"
  "others (thread_final t pool s) = others s"
  "finished (thread_final t pool s) = insert t (finished s)"
  "should_terminate (pools (thread_final t pool s) q) = should_terminate (pools s q)"
  "threads (pools (thread_final t pool s) q) = threads (pools s q)"
  "concurrency_lvl (pools (thread_final t pool s) q) = concurrency_lvl (pools s q)"
  "q \<noteq> pool \<Longrightarrow> pools (thread_final t pool s) q = pools s q"
  by (auto simp: thread_final_def worker_final_frame worker_final_def worker_pop_def
      split: option.splits list.splits)

lemma thread_final_running:
  "running (thread_final t pool s) = (if t \<in> finished s then running s else (running s)(t := None))"
  by (auto simp: thread_final_def worker_final_frame fun_eq_iff split: option.splits)

lemma thread_final_stack:
  "task_stack (pools (thread_final t pool s) pool) =
     drop (if idle s t then 1 else 0) (task_stack (pools s pool))"
  by (auto simp: thread_final_def idle_def worker_final_stack drop_Suc split: option.splits)

lemma thread_final_handles:
  assumes "Some a \<notin> task_state ` set (take (if idle s t then 1 else 0) (task_stack (pools s pool)))"
    and "rptr s t \<noteq> Some a"
  shows "handles (thread_final t pool s) a = handles s a"
proof (cases "t \<in> finished s")
  case True
  then show ?thesis by (simp add: thread_final_def)
next
  case False
  show ?thesis
  proof (cases "running s t")
    case None
    then have "idle s t" using False by (simp add: idle_def)
    then have "task_stack (pools s pool) = [] \<or> task_state (hd (task_stack (pools s pool))) \<noteq> Some a"
      using assms(1) by (cases "task_stack (pools s pool)") auto
    then show ?thesis using False None by (simp add: thread_final_def worker_final_handles)
  next
    case (Some u)
    then have "task_state u \<noteq> Some a" using assms(2) by (simp add: rptr_def)
    then show ?thesis using False Some by (simp add: thread_final_def run_if_valid_handles)
  qed
qed

lemma thread_final_done_mono:
  assumes "handles s b \<noteq> None"
  shows "handles (thread_final t pool s) b \<noteq> None"
proof (cases "t \<in> finished s")
  case True
  then show ?thesis using assms by (simp add: thread_final_def)
next
  case False
  show ?thesis
  proof (cases "running s t")
    case None
    have "handles (worker_final pool s) b \<noteq> None"
      using assms by (rule worker_final_done_mono)
    then show ?thesis using False None by (simp add: thread_final_def)
  next
    case (Some u)
    have "handles (run_if_valid u (s\<lparr>running := (running s)(t := None)\<rparr>)) b \<noteq> None"
      by (rule run_if_valid_done_mono) (use assms in simp)
    then show ?thesis using False Some by (simp add: thread_final_def)
  qed
qed

lemma thread_final_completes:
  "t \<notin> finished s \<Longrightarrow> running s t = Some u \<Longrightarrow> pt_valid u \<Longrightarrow> task_state u = Some a \<Longrightarrow>
   handles (thread_final t pool s) a \<noteq> None"
  using run_if_valid_completes [of u a "s\<lparr>running := (running s)(t := None)\<rparr>"]
  by (simp add: thread_final_def)

lemma thread_final_pops:
  assumes "idle s t" and "u \<in> set (take 1 (task_stack (pools s pool)))"
    and "pt_valid u" and "task_state u = Some a"
  shows "handles (thread_final t pool s) a \<noteq> None"
proof -
  from assms(2) obtain rest where stk: "task_stack (pools s pool) = u # rest"
    by (cases "task_stack (pools s pool)") auto
  have "handles (worker_final pool s) a \<noteq> None"
    using run_if_valid_completes [OF assms(3,4)] by (simp add: worker_final_def worker_pop_def stk)
  then show ?thesis using assms(1) by (simp add: thread_final_def idle_def)
qed

lemma length_filter_mono:
  "(\<And>x. x \<in> set xs \<Longrightarrow> P x \<Longrightarrow> Q x) \<Longrightarrow> length (filter P xs) \<le> length (filter Q xs)"
  by (induction xs) auto

lemma join_all_terminating:
  "should_terminate (pools s this) \<Longrightarrow>
   \<exists>s' k. join_all this ts s = (Returned (), s') \<and>
     k \<le> length (filter (idle s) ts) \<and>
     task_stack (pools s' this) = drop k (task_stack (pools s this)) \<and>
     (\<forall>a. Some a \<notin> task_state ` set (take k (task_stack (pools s this))) \<longrightarrow>
          (\<forall>t \<in> set ts. rptr s t \<noteq> Some a) \<longrightarrow> handles s' a = handles s a) \<and>
     (\<forall>u \<in> set (take k (task_stack (pools s this))). \<forall>a. pt_valid u \<longrightarrow> task_state u = Some a \<longrightarrow>
          handles s' a \<noteq> None) \<and>
     (\<forall>a. handles s a \<noteq> None \<longrightarrow> handles s' a \<noteq> None) \<and>
     (\<forall>t \<in> set ts. t \<notin> finished s \<longrightarrow>
        (\<forall>u a. running s t = Some u \<longrightarrow> pt_valid u \<longrightarrow> task_state u = Some a \<longrightarrow>
               handles s' a \<noteq> None)) \<and>
     (\<forall>q. q \<noteq> this \<longrightarrow> pools s' q = pools s q) \<and>
     should_terminate (pools s' this) \<and>
     threads (pools s' this) = threads (pools s this) \<and>
     concurrency_lvl (pools s' this) = concurrency_lvl (pools s this) \<and>
     tp_index s' = tp_index s \<and>
     others s' = others s \<and>
     finished s' = finished s \<union> set ts \<and>
     (\<forall>t. running s' t = (if t \<in> set ts \<and> t \<notin> finished s then None else running s t))"
proof (induction ts arbitrary: s)
  case Nil
  then show ?case by simp
next
  case (Cons t ts)
  let ?stk = "task_stack (pools s this)"
  let ?s1 = "thread_final t this s"
  let ?k1 = "if idle s t then 1 else 0 :: nat"
  have j: "join t this s = (Returned (), ?s1)"
    using Cons.prems by (rule join_terminating)
  have flag: "should_terminate (pools ?s1 this)"
    using Cons.prems by (simp add: thread_final_frame)
  have stk1: "task_stack (pools ?s1 this) = drop ?k1 ?stk"
    by (rule thread_final_stack)
  have run1: "running ?s1 = (if t \<in> finished s then running s else (running s)(t := None))"
    by (rule thread_final_running)
  have fin1: "finished ?s1 = insert t (finished s)"
    by (rule thread_final_frame)
  from Cons.IH [OF flag] obtain s' k where ih:
    "join_all this ts ?s1 = (Returned (), s')"
    "k \<le> length (filter (idle ?s1) ts)"
    "task_stack (pools s' this) = drop k (task_stack (pools ?s1 this))"
    "\<forall>a. Some a \<notin> task_state ` set (take k (task_stack (pools ?s1 this))) \<longrightarrow>
         (\<forall>t \<in> set ts. rptr ?s1 t \<noteq> Some a) \<longrightarrow> handles s' a = handles ?s1 a"
    "\<forall>a. handles ?s1 a \<noteq> None \<longrightarrow> handles s' a \<noteq> None"
    and pops: "\<forall>u \<in> set (take k (task_stack (pools ?s1 this))). \<forall>a. pt_valid u \<longrightarrow>
         task_state u = Some a \<longrightarrow> handles s' a \<noteq> None"
    and ih2:
    "\<forall>t \<in> set ts. t \<notin> finished ?s1 \<longrightarrow>
        (\<forall>u a. running ?s1 t = Some u \<longrightarrow> pt_valid u \<longrightarrow> task_state u = Some a \<longrightarrow>
               handles s' a \<noteq> None)"
    "\<forall>q. q \<noteq> this \<longrightarrow> pools s' q = pools ?s1 q"
    "should_terminate (pools s' this)"
    "threads (pools s' this) = threads (pools ?s1 this)"
    "concurrency_lvl (pools s' this) = concurrency_lvl (pools ?s1 this)"
    "tp_index s' = tp_index ?s1"
    "others s' = others ?s1"
    "finished s' = finished ?s1 \<union> set ts"
    "\<forall>x. running s' x = (if x \<in> set ts \<and> x \<notin> finished ?s1 then None else running ?s1 x)"
    by blast
  have c1: "join_all this (t # ts) s = (Returned (), s')"
    using j ih(1) by simp
  have idle1: "idle ?s1 x \<Longrightarrow> idle s x" for x
    by (auto simp: idle_def fin1 run1 split: if_splits)
  have "length (filter (idle ?s1) ts) \<le> length (filter (idle s) ts)"
    by (rule length_filter_mono) (rule idle1)
  then have c2: "?k1 + k \<le> length (filter (idle s) (t # ts))"
    using ih(2) by simp
  have c3: "task_stack (pools s' this) = drop (?k1 + k) ?stk"
    using ih(3) stk1 by (simp add: add.commute)
  have c4: "\<forall>a. Some a \<notin> task_state ` set (take (?k1 + k) ?stk) \<longrightarrow>
      (\<forall>x \<in> set (t # ts). rptr s x \<noteq> Some a) \<longrightarrow> handles s' a = handles s a"
  proof (intro allI impI)
    fix a
    assume a: "Some a \<notin> task_state ` set (take (?k1 + k) ?stk)"
      and r: "\<forall>x \<in> set (t # ts). rptr s x \<noteq> Some a"
    from a have a1: "Some a \<notin> task_state ` set (take ?k1 ?stk)"
      and a2: "Some a \<notin> task_state ` set (take k (drop ?k1 ?stk))"
      by (auto simp: take_add)
    have "handles ?s1 a = handles s a"
      using a1 r by (intro thread_final_handles) simp_all
    moreover have "\<forall>x \<in> set ts. rptr ?s1 x \<noteq> Some a"
      using r by (auto simp: rptr_def run1)
    ultimately show "handles s' a = handles s a"
      using ih(4) a2 stk1 by simp
  qed
  have c5: "\<forall>a. handles s a \<noteq> None \<longrightarrow> handles s' a \<noteq> None"
    using ih(5) thread_final_done_mono [of s _ t this] by blast
  have c6: "\<forall>x \<in> set (t # ts). x \<notin> finished s \<longrightarrow>
        (\<forall>u a. running s x = Some u \<longrightarrow> pt_valid u \<longrightarrow> task_state u = Some a \<longrightarrow>
               handles s' a \<noteq> None)"
  proof (intro ballI allI impI)
    fix x u a
    assume x: "x \<in> set (t # ts)" "x \<notin> finished s" "running s x = Some u" "pt_valid u"
      "task_state u = Some a"
    show "handles s' a \<noteq> None"
    proof (cases "x = t")
      case True
      then have "handles ?s1 a \<noteq> None"
        using x by (intro thread_final_completes) simp_all
      then show ?thesis using ih(5) by blast
    next
      case False
      then have "x \<in> set ts" "x \<notin> finished ?s1" "running ?s1 x = Some u"
        using x by (simp_all add: fin1 run1)
      then show ?thesis using ih2(1) x(4,5) by blast
    qed
  qed
  have c7: "\<forall>q. q \<noteq> this \<longrightarrow> pools s' q = pools s q"
    using ih2(2) by (simp add: thread_final_frame)
  have c8: "threads (pools s' this) = threads (pools s this)"
    "concurrency_lvl (pools s' this) = concurrency_lvl (pools s this)"
    "tp_index s' = tp_index s" "others s' = others s"
    using ih2(4-7) by (simp_all add: thread_final_frame)
  have c9: "finished s' = finished s \<union> set (t # ts)"
    using ih2(8) fin1 by auto
  have c10: "\<forall>x. running s' x = (if x \<in> set (t # ts) \<and> x \<notin> finished s then None else running s x)"
    using ih2(9) by (auto simp: fin1 run1)
  have c11: "\<forall>u \<in> set (take (?k1 + k) ?stk). \<forall>a. pt_valid u \<longrightarrow> task_state u = Some a \<longrightarrow>
      handles s' a \<noteq> None"
  proof (intro ballI allI impI)
    fix u a
    assume u: "u \<in> set (take (?k1 + k) ?stk)" "pt_valid u" "task_state u = Some a"
    from u(1) have "u \<in> set (take ?k1 ?stk) \<or> u \<in> set (take k (drop ?k1 ?stk))"
      by (auto simp: take_add)
    then show "handles s' a \<noteq> None"
    proof
      assume in1: "u \<in> set (take ?k1 ?stk)"
      then have idl: "idle s t" by (auto split: if_splits)
      then have "u \<in> set (take 1 ?stk)" using in1 by simp
      then have "handles ?s1 a \<noteq> None"
        using idl u(2,3) by (intro thread_final_pops)
      then show ?thesis using ih(5) by blast
    next
      assume "u \<in> set (take k (drop ?k1 ?stk))"
      then have "u \<in> set (take k (task_stack (pools ?s1 this)))" by (simp add: stk1)
      then show ?thesis using pops u(2,3) by blast
    qed
  qed
  show ?case
    using c1 c2 c3 c4 c11 c5 c6 c7 ih2(3) c8 c9 c10 by blast
qed

lemma fold_erase: "fold (\<lambda>thread m. m(thread := None)) ts m = (\<lambda>t. if t \<in> set ts then None else m t)"
  by (induction ts arbitrary: m) (auto simp: fun_eq_iff)

lemma fold_register:
  "fold (\<lambda>thread m. m(thread \<mapsto> this)) ts m = (\<lambda>t. if t \<in> set ts then Some this else m t)"
  by (induction ts arbitrary: m) (auto simp: fun_eq_iff)

lemma tp_index_remove:
  "tp_index (remove_tp_index this s) =
     (\<lambda>t. if t \<in> set (threads (pools s this)) then None else tp_index s t)"
  by (simp add: remove_tp_index_def fold_erase)

lemma pools_remove [simp]: "pools (remove_tp_index this s) = pools s"
  by (simp add: remove_tp_index_def)

lemma tp_index_add:
  "tp_index (add_tp_index this s) =
     (\<lambda>t. if t \<in> set (threads (pools s this)) then Some this else tp_index s t)"
  by (simp add: add_tp_index_def fold_register)

lemma pools_add [simp]: "pools (add_tp_index this s) = pools s"
  by (simp add: add_tp_index_def)

lemma terminate_returns:
  "\<exists>s' k. terminate this s = (Returned (), s') \<and>
     k \<le> length (filter (idle s) (threads (pools s this))) \<and>
     task_stack (pools s' this) = drop k (task_stack (pools s this)) \<and>
     (\<forall>a. Some a \<notin> task_state ` set (take k (task_stack (pools s this))) \<longrightarrow>
          (\<forall>t \<in> set (threads (pools s this)). rptr s t \<noteq> Some a) \<longrightarrow>
          handles s' a = handles s a) \<and>
     (\<forall>u \<in> set (take k (task_stack (pools s this))). \<forall>a. pt_valid u \<longrightarrow> task_state u = Some a \<longrightarrow>
          handles s' a \<noteq> None) \<and>
     (\<forall>a. handles s a \<noteq> None \<longrightarrow> handles s' a \<noteq> None) \<and>
     (\<forall>t \<in> set (threads (pools s this)). t \<notin> finished s \<longrightarrow>
        (\<forall>u a. running s t = Some u \<longrightarrow> pt_valid u \<longrightarrow> task_state u = Some a \<longrightarrow>
               handles s' a \<noteq> None)) \<and>
     (\<forall>q. q \<noteq> this \<longrightarrow> pools s' q = pools s q) \<and>
     should_terminate (pools s' this) \<and>
     threads (pools s' this) = [] \<and>
     concurrency_lvl (pools s' this) = concurrency_lvl (pools s this) \<and>
     tp_index s' = (\<lambda>t. if t \<in> set (threads (pools s this)) then None else tp_index s t) \<and>
     others s' = others s \<and>
     finished s' = finished s \<union> set (threads (pools s this)) \<and>
     (\<forall>t. running s' t =
        (if t \<in> set (threads (pools s this)) \<and> t \<notin> finished s then None else running s t))"
proof -
  let ?s1 = "upd_pool this (\<lambda>p. p\<lparr>should_terminate := True\<rparr>) s"
  let ?s2 = "remove_tp_index this ?s1"
  let ?ts = "threads (pools s this)"
  have flag: "should_terminate (pools ?s2 this)" by simp
  have same: "threads (pools ?s2 this) = ?ts" "task_stack (pools ?s2 this) = task_stack (pools s this)"
    "handles ?s2 = handles s" "running ?s2 = running s" "finished ?s2 = finished s"
    "others ?s2 = others s" "concurrency_lvl (pools ?s2 this) = concurrency_lvl (pools s this)"
    by (simp_all add: remove_tp_index_def)
  have idl: "idle ?s2 = idle s" and rp: "rptr ?s2 = rptr s"
    by (simp_all add: idle_def rptr_def same fun_eq_iff)
  from join_all_terminating [OF flag, of ?ts]
  obtain s3 k where j:
    "join_all this ?ts ?s2 = (Returned (), s3)"
    "k \<le> length (filter (idle s) ?ts)"
    "task_stack (pools s3 this) = drop k (task_stack (pools s this))"
    "\<forall>a. Some a \<notin> task_state ` set (take k (task_stack (pools s this))) \<longrightarrow>
         (\<forall>t \<in> set ?ts. rptr s t \<noteq> Some a) \<longrightarrow> handles s3 a = handles s a"
    "\<forall>a. handles s a \<noteq> None \<longrightarrow> handles s3 a \<noteq> None"
    and pops: "\<forall>u \<in> set (take k (task_stack (pools s this))). \<forall>a. pt_valid u \<longrightarrow>
         task_state u = Some a \<longrightarrow> handles s3 a \<noteq> None"
    and j2:
    "\<forall>t \<in> set ?ts. t \<notin> finished s \<longrightarrow>
        (\<forall>u a. running s t = Some u \<longrightarrow> pt_valid u \<longrightarrow> task_state u = Some a \<longrightarrow>
               handles s3 a \<noteq> None)"
    "\<forall>q. q \<noteq> this \<longrightarrow> pools s3 q = pools ?s2 q"
    "should_terminate (pools s3 this)"
    "concurrency_lvl (pools s3 this) = concurrency_lvl (pools s this)"
    "tp_index s3 = tp_index ?s2"
    "others s3 = others s"
    "finished s3 = finished s \<union> set ?ts"
    "\<forall>t. running s3 t = (if t \<in> set ?ts \<and> t \<notin> finished s then None else running s t)"
    unfolding idl rp same by blast
  let ?s' = "upd_pool this (\<lambda>p. p\<lparr>threads := []\<rparr>) s3"
  have c1: "terminate this s = (Returned (), ?s')"
    using j(1) by (simp add: terminate_def Let_def same(1))
  have c3: "task_stack (pools ?s' this) = drop k (task_stack (pools s this))"
    using j(3) by simp
  have c4: "\<forall>a. Some a \<notin> task_state ` set (take k (task_stack (pools s this))) \<longrightarrow>
          (\<forall>t \<in> set ?ts. rptr s t \<noteq> Some a) \<longrightarrow> handles ?s' a = handles s a"
    using j(4) by simp
  have c5: "\<forall>a. handles s a \<noteq> None \<longrightarrow> handles ?s' a \<noteq> None"
    using j(5) by simp
  have c6: "\<forall>t \<in> set ?ts. t \<notin> finished s \<longrightarrow>
        (\<forall>u a. running s t = Some u \<longrightarrow> pt_valid u \<longrightarrow> task_state u = Some a \<longrightarrow>
               handles ?s' a \<noteq> None)"
    using j2(1) by simp
  have c7: "\<forall>q. q \<noteq> this \<longrightarrow> pools ?s' q = pools s q"
    using j2(2) by simp
  have c8: "should_terminate (pools ?s' this)" "threads (pools ?s' this) = []"
    "concurrency_lvl (pools ?s' this) = concurrency_lvl (pools s this)"
    "others ?s' = others s" "finished ?s' = finished s \<union> set ?ts"
    using j2(3,4,6,7) by simp_all
  have c9: "tp_index ?s' = (\<lambda>t. if t \<in> set ?ts then None else tp_index s t)"
    using j2(5) by (simp add: tp_index_remove cong: if_cong)
  have c10: "\<forall>t. running ?s' t = (if t \<in> set ?ts \<and> t \<notin> finished s then None else running s t)"
    using j2(8) by simp
  have c11: "\<forall>u \<in> set (take k (task_stack (pools s this))). \<forall>a. pt_valid u \<longrightarrow>
      task_state u = Some a \<longrightarrow> handles ?s' a \<noteq> None"
    using pops by simp
  show ?thesis
    using c1 j(2) c3 c4 c11 c5 c6 c7 c8 c9 c10 by blast
qed

lemma terminate_idle:
  assumes "should_terminate (pools s this)" and "threads (pools s this) = []"
  shows "terminate this s = (Returned (), s)"
proof -
  have a: "upd_pool this (\<lambda>p. p\<lparr>should_terminate := True\<rparr>) s = s"
    using assms(1) by (simp add: upd_pool_id)
  have b: "remove_tp_index this s = s"
    using assms(2) by (simp add: remove_tp_index_def)
  have c: "upd_pool this (\<lambda>p. p\<lparr>threads := []\<rparr>) s = s"
    using assms(2) by (simp add: upd_pool_id)
  show ?thesis
    by (simp add: terminate_def Let_def a b assms(2) c)
qed

lemma worker_drains:
  "\<not> should_terminate (pools s pool) \<Longrightarrow>
   fst (worker pool s) = Waiting \<and> task_stack (pools (snd (worker pool s)) pool) = [] \<and>
   \<not> should_terminate (pools (snd (worker pool s)) pool)"
proof (induction pool s rule: worker.induct)
  case (1 pool s)
  show ?case
  proof (cases "task_stack (pools s pool) = []")
    case True
    with "1.prems" have "worker pool s = (Waiting, s)"
      by (subst worker.simps) simp
    with True "1.prems" show ?thesis by simp
  next
    case False
    let ?s' = "run_if_valid (fst (worker_pop pool s)) (snd (worker_pop pool s))"
    have nf: "\<not> should_terminate (pools ?s' pool)"
      using "1.prems" by (simp add: worker_pop_def split: list.splits)
    have "worker pool s = worker pool ?s'"
      using False nf by (subst worker.simps) (simp add: Let_def)
    moreover have "fst (worker pool ?s') = Waiting \<and>
        task_stack (pools (snd (worker pool ?s')) pool) = [] \<and>
        \<not> should_terminate (pools (snd (worker pool ?s')) pool)"
      using False nf by (intro "1.IH") simp_all
    ultimately show ?thesis by simp
  qed
qed
subsection \<open>The example states, evaluated\<close>

lemma init_pool2:
  "init no_failure 0 2 (sys0 []) = (Returned Ok,
     \<lparr>pools = (\<lambda>_. ThreadPool)(0 := \<lparr>concurrency_lvl = 2, should_terminate = False,
                                      task_stack = [], threads = [0]\<rparr>),
      tp_index = [0 \<mapsto> 0], handles = (\<lambda>_. None), next_handle = 0, next_tid = 1,
      finished = {}, running = Map.empty, others = [], world = []\<rparr>)"
  by (simp add: init_def spawn_loop.simps [of _ _ _ _ 0] spawn_loop.simps [of _ _ _ _ "Suc 0"]
      no_failure_def sys0_def emplace_back_def upd_pool_def add_tp_index_def ok_def
      ThreadPool_def)

lemma pool2_eq:
  "pool2 = \<lparr>pools = (\<lambda>_. ThreadPool)(0 := \<lparr>concurrency_lvl = 2, should_terminate = False,
                                             task_stack = [], threads = [0]\<rparr>),
             tp_index = [0 \<mapsto> 0], handles = (\<lambda>_. None), next_handle = 0, next_tid = 1,
             finished = {}, running = Map.empty, others = [], world = []\<rparr>"
  by (simp add: pool2_def init_pool2)

lemma busy2_eq:
  "busy2 = \<lparr>pools = (\<lambda>_. ThreadPool)(0 := \<lparr>concurrency_lvl = 2, should_terminate = False,
               task_stack = [\<lparr>fn = Some (mark 2 Ok), task_state = Some 1\<rparr>,
                             \<lparr>fn = Some (mark 1 Ok), task_state = Some 0\<rparr>],
               threads = [0]\<rparr>),
             tp_index = [0 \<mapsto> 0], handles = (\<lambda>_. None), next_handle = 2, next_tid = 1,
             finished = {}, running = Map.empty, others = [], world = []\<rparr>"
  by (simp add: busy2_def pool2_eq execute_def Let_def get_future_def upd_pool_def fun_upd_idem)

lemma spawned_0: "spawned this 0 s = s"
  by (simp add: spawned_def upd_pool_def)

lemma spawned_Suc: "spawned this k (emplace_back this s) = spawned this (Suc k) s"
proof -
  have "[next_tid s ..< next_tid s + Suc k] = next_tid s # [Suc (next_tid s) ..< Suc (next_tid s) + k]"
    by (simp add: upt_conv_Cons del: upt_Suc)
  then show ?thesis
    by (simp add: spawned_def emplace_back_def upd_pool_def del: upt_Suc)
qed

lemma spawn_loop_upto:
  "i \<le> j \<Longrightarrow> j \<le> num_threads \<Longrightarrow> \<forall>l. i \<le> l \<and> l < j \<longrightarrow> thr l = None \<Longrightarrow>
   spawn_loop thr this c num_threads i s = spawn_loop thr this c num_threads j (spawned this (j - i) s)"
proof (induction "j - i" arbitrary: i s)
  case 0
  then show ?case by (simp add: spawned_0)
next
  case (Suc d)
  then have lt: "i < num_threads" "thr i = None" "d = j - Suc i" "Suc i \<le> j" by auto
  have "spawn_loop thr this c num_threads i s =
        spawn_loop thr this c num_threads (Suc i) (emplace_back this s)"
    using lt(1,2) by (subst spawn_loop.simps) simp
  also have "\<dots> = spawn_loop thr this c num_threads j (spawned this (j - Suc i) (emplace_back this s))"
    using Suc.hyps(1) [OF lt(3) lt(4) Suc.prems(2)] Suc.prems(3) by simp
  also have "spawned this (j - Suc i) (emplace_back this s) = spawned this (j - i) s"
  proof -
    have "Suc (j - Suc i) = j - i" using lt(4) by arith
    then show ?thesis by (simp add: spawned_Suc)
  qed
  finally show ?case .
qed

lemma spawn_loop_ok:
  assumes "\<forall>l < num_threads. thr l = None"
  shows "spawn_loop thr this c num_threads 0 s = (Ok, spawned this num_threads s)"
proof -
  have "spawn_loop thr this c num_threads 0 s =
        spawn_loop thr this c num_threads num_threads (spawned this (num_threads - 0) s)"
    using assms by (intro spawn_loop_upto) auto
  then show ?thesis by (subst (asm) (2) spawn_loop.simps) simp
qed

lemma spawn_loop_fails:
  assumes "j < num_threads" and "thr j = Some what" and "\<forall>l < j. thr l = None"
  shows "spawn_loop thr this c num_threads 0 s =
     (ThreadPoolError (''Error initializing thread pool of concurrencylevel '' @
                       to_string c @ ''; '' @ what), spawned this j s)"
proof -
  have "spawn_loop thr this c num_threads 0 s =
        spawn_loop thr this c num_threads j (spawned this (j - 0) s)"
    using assms by (intro spawn_loop_upto) auto
  then show ?thesis using assms(1,2) by (subst (asm) (2) spawn_loop.simps) simp
qed

lemma init_ok:
  assumes "1 \<le> n" and "\<forall>i < n - 1. thr i = None"
  shows "init thr this n s =
    (Returned Ok, add_tp_index this (upd_pool this (\<lambda>p. p\<lparr>concurrency_lvl := n\<rparr>) (spawned this (n - 1) s)))"
  using assms by (simp add: init_def spawn_loop_ok ok_def)

lemma spawn_loop_flag:
  "should_terminate (pools (snd (spawn_loop thr this c num_threads i s)) q) =
   should_terminate (pools s q)"
proof (induction thr this c num_threads i s rule: spawn_loop.induct)
  case (1 thr this c num_threads i s)
  show ?case
  proof (cases "i < num_threads \<and> thr i = None")
    case True
    then have "spawn_loop thr this c num_threads i s =
        spawn_loop thr this c num_threads (Suc i) (emplace_back this s)"
      by (subst spawn_loop.simps) simp
    then show ?thesis using True "1.IH" by (simp add: emplace_back_def)
  next
    case False
    then have "snd (spawn_loop thr this c num_threads i s) = s"
      by (subst spawn_loop.simps) (auto split: option.splits)
    then show ?thesis by simp
  qed
qed

lemma init_keeps_flag:
  assumes "should_terminate (pools s this)"
  shows "should_terminate (pools (snd (init thr this m s)) this)"
proof (cases "m = 0")
  case True
  then show ?thesis using assms by (simp add: init_def)
next
  case False
  obtain st s1 where sp: "spawn_loop thr this m (m - 1) 0 s = (st, s1)"
    by (cases "spawn_loop thr this m (m - 1) 0 s")
  show ?thesis
  proof (cases "ok st")
    case True
    have "should_terminate (pools s1 this)"
      using spawn_loop_flag [of thr this m "m - 1" 0 s this] sp assms by simp
    then show ?thesis using False sp True by (simp add: init_def)
  next
    case nok: False
    from terminate_returns [of this s1] obtain s2 where
      "terminate this s1 = (Returned (), s2)" "should_terminate (pools s2 this)"
      by blast
    then show ?thesis using False sp nok by (simp add: init_def)
  qed
qed

lemma execute_rejects:
  "concurrency_lvl (pools s this) = 0 \<or> should_terminate (pools s this) \<Longrightarrow>
   execute this f s = (None, s)"
  by (auto simp: execute_def)

lemma not_ok_ThreadPoolError [simp]: "\<not> ok (ThreadPoolError msg)"
  by (simp add: ok_def ThreadPoolError_def)

lemma init_fails:
  assumes "j < n - 1" and "thr j = Some what" and "\<forall>i < j. thr i = None"
  shows "init thr this n s =
    (case terminate this (spawned this j s) of
       (Returned _, s2) \<Rightarrow>
         (Returned (ThreadPoolError (''Error initializing thread pool of concurrencylevel '' @
                                     to_string n @ ''; '' @ what)), s2)
     | (Blocked, s2) \<Rightarrow> (Blocked, s2))"
proof -
  have "n \<noteq> 0" using assms(1) by simp
  then show ?thesis
    using spawn_loop_fails [OF assms, of this n s]
    by (simp add: init_def split: prod.splits outcome.splits)
qed

lemma to_string_3: "to_string 3 = ''3''"
  by (simp add: to_string.simps digit_char_def)

lemma init_failed3:
  "init (fails_at 1 ''Resource temporarily unavailable'') 0 3 fresh =
     (Returned (Error ''Error initializing thread pool of concurrencylevel 3; Resource temporarily unavailable''),
      \<lparr>pools = (\<lambda>_. ThreadPool)(0 := \<lparr>concurrency_lvl = 0, should_terminate = True,
                                       task_stack = [], threads = []\<rparr>),
       tp_index = Map.empty, handles = (\<lambda>_. None), next_handle = 0, next_tid = 1,
       finished = {0}, running = Map.empty, others = [], world = []\<rparr>)"
  by (simp add: init_def spawn_loop.simps [of _ _ _ _ 0] spawn_loop.simps [of _ _ _ _ "Suc 0"]
      fails_at_def sys0_def emplace_back_def upd_pool_def ok_def ThreadPoolError_def ThreadPool_def
      to_string_3 terminate_def Let_def remove_tp_index_def join_def run_thread_def
      worker_terminating worker_final_def worker_pop_def run_if_valid_def pt_valid_def
      empty_task_def)

lemma failed3_eq:
  "failed3 = \<lparr>pools = (\<lambda>_. ThreadPool)(0 := \<lparr>concurrency_lvl = 0, should_terminate = True,
                                       task_stack = [], threads = []\<rparr>),
       tp_index = Map.empty, handles = (\<lambda>_. None), next_handle = 0, next_tid = 1,
       finished = {0}, running = Map.empty, others = [], world = []\<rparr>"
  by (simp only: failed3_def init_failed3 snd_conv)

lemma init_after_failed3:
  "init no_failure 0 2 failed3 = (Returned Ok,
      \<lparr>pools = (\<lambda>_. ThreadPool)(0 := \<lparr>concurrency_lvl = 2, should_terminate = True,
                                       task_stack = [], threads = [1]\<rparr>),
       tp_index = [1 \<mapsto> 0], handles = (\<lambda>_. None), next_handle = 0, next_tid = 2,
       finished = {0}, running = Map.empty, others = [], world = []\<rparr>)"
  by (simp add: failed3_eq init_def spawn_loop.simps [of _ _ _ _ 0] spawn_loop.simps [of _ _ _ _ "Suc 0"]
      no_failure_def emplace_back_def upd_pool_def add_tp_index_def ok_def)

lemma init_pool1:
  "init no_failure 0 1 fresh = (Returned Ok,
     \<lparr>pools = (\<lambda>_. ThreadPool)(0 := \<lparr>concurrency_lvl = 1, should_terminate = False,
                                      task_stack = [], threads = []\<rparr>),
      tp_index = Map.empty, handles = (\<lambda>_. None), next_handle = 0, next_tid = 0,
      finished = {}, running = Map.empty, others = [], world = []\<rparr>)"
  by (simp add: init_def spawn_loop.simps [of _ _ _ _ 0] sys0_def upd_pool_def add_tp_index_def
      ok_def ThreadPool_def)

lemma pool1_eq:
  "pool1 = \<lparr>pools = (\<lambda>_. ThreadPool)(0 := \<lparr>concurrency_lvl = 1, should_terminate = False,
                                      task_stack = [], threads = []\<rparr>),
      tp_index = Map.empty, handles = (\<lambda>_. None), next_handle = 0, next_tid = 0,
      finished = {}, running = Map.empty, others = [], world = []\<rparr>"
  by (simp only: pool1_def init_pool1 snd_conv)

subsection \<open>The waiting loop\<close>

lemma run_if_valid_upd_pool:
  "run_if_valid t (upd_pool p g s) = upd_pool p g (run_if_valid t s)"
  by (simp add: run_if_valid_def pt_call_def upd_pool_def split: option.splits)

lemma fold_run_upd_pool:
  "fold run_if_valid ts (upd_pool p g s) = upd_pool p g (fold run_if_valid ts s)"
  by (induction ts arbitrary: s) (simp_all add: run_if_valid_upd_pool)

lemma upd_pool_twice:
  "upd_pool p (\<lambda>x. x\<lparr>task_stack := ys\<rparr>) (upd_pool p (\<lambda>x. x\<lparr>task_stack := xs\<rparr>) s) =
   upd_pool p (\<lambda>x. x\<lparr>task_stack := ys\<rparr>) s"
  by (simp add: upd_pool_def)

lemma pools_fold_run [simp]: "pools (fold run_if_valid ts s) = pools s"
  by (induction ts arbitrary: s) simp_all

lemma tp_index_fold_run [simp]: "tp_index (fold run_if_valid ts s) = tp_index s"
  by (induction ts arbitrary: s) simp_all

lemma task_done_upd_pool [simp]: "task_done a (upd_pool p g s) = task_done a s"
  by (simp add: task_done_def)

lemma lookup_tp_frame:
  "tp_index s' = tp_index s \<Longrightarrow> lookup_tp tid this s' = lookup_tp tid this s"
  by (simp add: lookup_tp_def)

lemma wait_step_None:
  "wait_step tid this a s = None \<longleftrightarrow>
     task_done a s \<or> task_stack (pools s (lookup_tp tid this s)) = []"
  by (simp add: wait_step_def Let_def split: list.splits)

lemma wait_step_Some:
  "wait_step tid this a s = Some s1 \<longleftrightarrow>
     \<not> task_done a s \<and> task_stack (pools s (lookup_tp tid this s)) \<noteq> [] \<and>
     s1 = run_if_valid (hd (task_stack (pools s (lookup_tp tid this s))))
            (upd_pool (lookup_tp tid this s)
               (\<lambda>p. p\<lparr>task_stack := tl (task_stack (pools s (lookup_tp tid this s)))\<rparr>) s)"
  by (auto simp: wait_step_def Let_def split: list.splits)

lemma wait_loop_folds:
  "\<exists>k \<le> length (task_stack (pools s (lookup_tp tid this s))).
     wait_loop tid this a s =
       fold run_if_valid (take k (task_stack (pools s (lookup_tp tid this s))))
         (upd_pool (lookup_tp tid this s)
            (\<lambda>p. p\<lparr>task_stack := drop k (task_stack (pools s (lookup_tp tid this s)))\<rparr>) s) \<and>
     (\<forall>j < k. \<not> task_done a
         (fold run_if_valid (take j (task_stack (pools s (lookup_tp tid this s)))) s)) \<and>
     (task_done a (wait_loop tid this a s) \<or>
      k = length (task_stack (pools s (lookup_tp tid this s))))"
proof (induction tid this a s rule: wait_loop.induct)
  case (1 tid this a s)
  let ?host = "lookup_tp tid this s"
  let ?stk = "task_stack (pools s ?host)"
  show ?case
  proof (cases "wait_step tid this a s")
    case None
    then have w: "wait_loop tid this a s = s"
      by (subst wait_loop.simps) simp
    have s0: "upd_pool ?host (\<lambda>p. p\<lparr>task_stack := ?stk\<rparr>) s = s"
      by (simp add: upd_pool_id)
    from None have "task_done a s \<or> ?stk = []" by (simp add: wait_step_None)
    then show ?thesis
      using w s0 by (intro exI [of _ 0]) auto
  next
    case (Some s1)
    then have w: "wait_loop tid this a s = wait_loop tid this a s1"
      by (subst wait_loop.simps) simp
    from Some have nd: "\<not> task_done a s" and ne: "?stk \<noteq> []"
      and s1: "s1 = run_if_valid (hd ?stk) (upd_pool ?host (\<lambda>p. p\<lparr>task_stack := tl ?stk\<rparr>) s)"
      by (simp_all add: wait_step_Some)
    have host1: "lookup_tp tid this s1 = ?host"
      by (simp add: s1 lookup_tp_def)
    have stk1: "task_stack (pools s1 ?host) = tl ?stk"
      by (simp add: s1)
    from "1.IH" [OF Some] host1 stk1 obtain k where k: "k \<le> length (tl ?stk)"
      "wait_loop tid this a s1 =
         fold run_if_valid (take k (tl ?stk))
           (upd_pool ?host (\<lambda>p. p\<lparr>task_stack := drop k (tl ?stk)\<rparr>) s1)"
      "\<forall>j < k. \<not> task_done a (fold run_if_valid (take j (tl ?stk)) s1)"
      "task_done a (wait_loop tid this a s1) \<or> k = length (tl ?stk)"
      by auto
    obtain t rest where stk: "?stk = t # rest" using ne by (cases ?stk) auto
    have u: "upd_pool ?host (\<lambda>p. p\<lparr>task_stack := drop k rest\<rparr>) s1 =
             run_if_valid t (upd_pool ?host (\<lambda>p. p\<lparr>task_stack := drop k rest\<rparr>) s)"
      by (simp add: s1 stk run_if_valid_upd_pool upd_pool_twice)
    have a: "Suc k \<le> length ?stk" using k(1) stk by simp
    have b: "wait_loop tid this a s =
       fold run_if_valid (take (Suc k) ?stk)
         (upd_pool ?host (\<lambda>p. p\<lparr>task_stack := drop (Suc k) ?stk\<rparr>) s)"
      using w k(2) u by (simp add: stk)
    have c: "\<forall>j < Suc k. \<not> task_done a (fold run_if_valid (take j ?stk) s)"
    proof (intro allI impI)
      fix j assume j: "j < Suc k"
      show "\<not> task_done a (fold run_if_valid (take j ?stk) s)"
      proof (cases j)
        case 0
        then show ?thesis using nd by simp
      next
        case (Suc j')
        then have "\<not> task_done a (fold run_if_valid (take j' rest) s1)"
          using k(3) j stk by simp
        moreover have "fold run_if_valid (take j' rest) s1 =
            upd_pool ?host (\<lambda>p. p\<lparr>task_stack := rest\<rparr>) (fold run_if_valid (take j ?stk) s)"
          by (simp add: s1 stk Suc run_if_valid_upd_pool fold_run_upd_pool)
        ultimately show ?thesis by simp
      qed
    qed
    have d: "task_done a (wait_loop tid this a s) \<or> Suc k = length ?stk"
      using k(4) w stk by simp
    show ?thesis
      using a b c d by blast
  qed
qed

lemma two_pools_eq:
  "two_pools = \<lparr>pools = (\<lambda>_. ThreadPool)
       (0 := \<lparr>concurrency_lvl = 2, should_terminate = False,
               task_stack = [\<lparr>fn = Some (mark 2 Ok), task_state = Some 1\<rparr>,
                             \<lparr>fn = Some (mark 1 Ok), task_state = Some 0\<rparr>],
               threads = [0]\<rparr>,
        1 := \<lparr>concurrency_lvl = 2, should_terminate = False,
               task_stack = [\<lparr>fn = Some (mark 3 Ok), task_state = Some 2\<rparr>],
               threads = [1]\<rparr>),
     tp_index = [0 \<mapsto> 0, 1 \<mapsto> 1], handles = (\<lambda>_. None), next_handle = 3, next_tid = 2,
     finished = {}, running = Map.empty, others = [], world = []\<rparr>"
  by (simp add: two_pools_def busy2_eq init_def spawn_loop.simps [of _ _ _ _ 0]
      spawn_loop.simps [of _ _ _ _ "Suc 0"] no_failure_def emplace_back_def upd_pool_def
      add_tp_index_def ok_def ThreadPool_def execute_def Let_def get_future_def fun_upd_idem)

lemma wait_loop_two_pools:
  "wait_loop 0 1 2 two_pools = two_pools
     \<lparr>pools := (pools two_pools)(0 := (pools two_pools 0)\<lparr>task_stack := []\<rparr>),
      handles := [0 \<mapsto> Ok, 1 \<mapsto> Ok], world := [2, 1]\<rparr>"
  by (simp add: two_pools_eq wait_loop.simps wait_step_def lookup_tp_def task_done_def
      run_if_valid_def pt_valid_def pt_call_def upd_pool_def mark_def Let_def fun_upd_twist)

lemma others_fold_run [simp]: "others (fold run_if_valid ts s) = others s"
  by (induction ts arbitrary: s) simp_all

lemma running_fold_run [simp]: "running (fold run_if_valid ts s) = running s"
  by (induction ts arbitrary: s) simp_all

lemma finished_fold_run [simp]: "finished (fold run_if_valid ts s) = finished s"
  by (induction ts arbitrary: s) simp_all

lemma next_handle_fold_run [simp]: "next_handle (fold run_if_valid ts s) = next_handle s"
  by (induction ts arbitrary: s) simp_all

lemma await_done: "handles s a = Some st \<Longrightarrow> await a xs s = (Returned st, s\<lparr>others := xs\<rparr>)"
  by (cases xs) simp_all

lemma await_Blocked: "fst (await a xs s) = Blocked \<Longrightarrow> handles s a = None"
  by (cases "handles s a") (simp_all add: await_done)

lemma running3_eq:
  "running3 = \<lparr>pools = (\<lambda>_. ThreadPool)(0 := \<lparr>concurrency_lvl = 2, should_terminate = False,
               task_stack = [\<lparr>fn = Some (mark 3 Ok), task_state = Some 2\<rparr>,
                             \<lparr>fn = Some (mark 2 Ok), task_state = Some 1\<rparr>],
               threads = [0]\<rparr>),
             tp_index = [0 \<mapsto> 0], handles = (\<lambda>_. None), next_handle = 3, next_tid = 1,
             finished = {},
             running = [0 \<mapsto> \<lparr>fn = Some (mark 1 (Error ''boom'')), task_state = Some 0\<rparr>],
             others = [], world = []\<rparr>"
  by (simp add: running3_def pool2_eq execute_def Let_def get_future_def upd_pool_def fun_upd_idem
      worker_take_def worker_pop_def numeral_2_eq_2 [symmetric])

subsection \<open>The order of the records\<close>

lemma set_ptrs: "a \<in> set (ptrs stk) \<longleftrightarrow> (\<exists>t \<in> set stk. task_state t = Some a)"
  by (induction stk) (auto split: option.splits)

lemma records_ok_core: "core s' = core s \<Longrightarrow> records_ok s' = records_ok s"
  by (simp add: core_def records_ok_def rptr_def fun_eq_iff)

lemma holds_core: "core s' = core s \<Longrightarrow> holds s' = holds s"
  by (simp add: core_def holds_def fun_eq_iff)

lemma evolves_core_right: "evolves s x \<Longrightarrow> core x' = core x \<Longrightarrow> evolves s x'"
  using records_ok_core [of x' x] holds_core [of x' x]
  by (simp add: evolves_def) (simp add: core_def)

lemma evolves_core_left: "evolves x s' \<Longrightarrow> core x' = core x \<Longrightarrow> evolves x' s'"
  using holds_core [of x' x]
  by (simp add: evolves_def) (simp add: core_def)

lemma evolves_refl: "records_ok s \<Longrightarrow> evolves s s"
  by (simp add: evolves_def)

lemma evolves_core: "records_ok s \<Longrightarrow> core s' = core s \<Longrightarrow> evolves s s'"
  using evolves_core_right [OF evolves_refl] by blast

lemma evolves_trans:
  assumes "evolves s s1" and "evolves s1 s2"
  shows "evolves s s2"
proof -
  have nh: "next_handle s \<le> next_handle s1" "next_handle s1 \<le> next_handle s2"
    using assms by (simp_all add: evolves_def)
  have ok: "records_ok s2" using assms(2) by (simp add: evolves_def)
  have stab: "\<forall>a r. handles s a = Some r \<longrightarrow> handles s2 a = Some r"
    using assms by (simp add: evolves_def)
  have old: "\<forall>t a. holds s2 t \<longrightarrow> task_state t = Some a \<longrightarrow> a < next_handle s \<longrightarrow> holds s t"
  proof (intro allI impI)
    fix t a assume h: "holds s2 t" "task_state t = Some a" "a < next_handle s"
    then have "holds s1 t" using assms(2) nh(1) by (auto simp: evolves_def)
    then show "holds s t" using assms(1) h(2,3) by (auto simp: evolves_def)
  qed
  have prov: "\<forall>a r. a < next_handle s \<longrightarrow> handles s a = None \<longrightarrow> handles s2 a = Some r \<longrightarrow>
         (\<exists>t f w. holds s t \<and> task_state t = Some a \<and> fn t = Some f \<and> r = fst (f w))"
  proof (intro allI impI)
    fix a r assume a: "a < next_handle s" "handles s a = None" "handles s2 a = Some r"
    show "\<exists>t f w. holds s t \<and> task_state t = Some a \<and> fn t = Some f \<and> r = fst (f w)"
    proof (cases "handles s1 a")
      case None
      have "a < next_handle s1" using a(1) nh(1) by simp
      then obtain t f w where t: "holds s1 t" "task_state t = Some a" "fn t = Some f" "r = fst (f w)"
        using assms(2) None a(3) unfolding evolves_def by blast
      then have "holds s t" using assms(1) a(1) unfolding evolves_def by blast
      then show ?thesis using t by blast
    next
      case (Some r1)
      then have "handles s2 a = Some r1" using assms(2) unfolding evolves_def by blast
      then have "r1 = r" using a(3) by simp
      then show ?thesis using assms(1) a(1,2) Some unfolding evolves_def by blast
    qed
  qed
  show ?thesis
    unfolding evolves_def using ok nh stab prov old by auto
qed

lemma handles_run_valid:
  "fn t = Some f \<Longrightarrow> task_state t = Some a \<Longrightarrow>
   handles (run_if_valid t s) = (handles s)(a \<mapsto> fst (f (world s)))"
  by (simp add: run_if_valid_def pt_valid_def pt_call_def)

lemma run_invalid: "\<not> pt_valid t \<Longrightarrow> run_if_valid t s = s"
  by (simp add: run_if_valid_def)

lemma records_ok_complete:
  assumes "records_ok s1" and "a < next_handle s1"
    and "\<forall>q. a \<notin> set (ptrs (task_stack (pools s1 q)))" and "\<forall>th. rptr s1 th \<noteq> Some a"
    and "core s' = ((handles s1)(a \<mapsto> r), snd (core s1))"
  shows "records_ok s'"
proof -
  have c: "handles s' = (handles s1)(a \<mapsto> r)" "next_handle s' = next_handle s1"
    "\<And>q. task_stack (pools s' q) = task_stack (pools s1 q)" "running s' = running s1"
    using assms(5) by (simp_all add: core_def fun_eq_iff)
  have rp: "rptr s' = rptr s1" by (simp add: rptr_def c(4) fun_eq_iff)
  have 1: "\<forall>b. next_handle s' \<le> b \<longrightarrow> handles s' b = None"
    using assms(1,2) by (simp add: records_ok_def c)
  have 2: "\<forall>q. distinct (ptrs (task_stack (pools s' q))) \<and>
           (\<forall>b \<in> set (ptrs (task_stack (pools s' q))). b < next_handle s' \<and> handles s' b = None)"
  proof (intro allI conjI ballI)
    fix q
    show "distinct (ptrs (task_stack (pools s' q)))"
      using assms(1) by (simp add: records_ok_def c)
    fix b assume b: "b \<in> set (ptrs (task_stack (pools s' q)))"
    then have "b \<noteq> a" using assms(3) by (auto simp: c)
    moreover have "b < next_handle s1 \<and> handles s1 b = None"
      using assms(1) b unfolding records_ok_def c by blast
    ultimately show "b < next_handle s'" "handles s' b = None"
      by (simp_all add: c)
  qed
  have 3: "\<forall>q q'. q \<noteq> q' \<longrightarrow>
           set (ptrs (task_stack (pools s' q))) \<inter> set (ptrs (task_stack (pools s' q'))) = {}"
    using assms(1) by (simp add: records_ok_def c)
  have 4: "\<forall>th b. rptr s' th = Some b \<longrightarrow>
           b < next_handle s' \<and> handles s' b = None \<and>
           (\<forall>q. b \<notin> set (ptrs (task_stack (pools s' q)))) \<and>
           (\<forall>th'. th' \<noteq> th \<longrightarrow> rptr s' th' \<noteq> Some b)"
  proof (intro allI impI)
    fix th b assume b: "rptr s' th = Some b"
    then have "b \<noteq> a" using assms(4) by (auto simp: rp)
    moreover have "b < next_handle s1 \<and> handles s1 b = None \<and>
           (\<forall>q. b \<notin> set (ptrs (task_stack (pools s1 q)))) \<and>
           (\<forall>th'. th' \<noteq> th \<longrightarrow> rptr s1 th' \<noteq> Some b)"
      using assms(1) b unfolding records_ok_def rp by blast
    ultimately show "b < next_handle s' \<and> handles s' b = None \<and>
           (\<forall>q. b \<notin> set (ptrs (task_stack (pools s' q)))) \<and>
           (\<forall>th'. th' \<noteq> th \<longrightarrow> rptr s' th' \<noteq> Some b)"
      by (simp add: c rp)
  qed
  show ?thesis
    unfolding records_ok_def using 1 2 3 4 by blast
qed

lemma held_pending:
  assumes "records_ok s" and "holds s t" and "task_state t = Some a"
  shows "a < next_handle s \<and> handles s a = None"
proof -
  from assms(2) consider q where "t \<in> set (task_stack (pools s q))" | th where "running s th = Some t"
    unfolding holds_def by blast
  then show ?thesis
  proof cases
    case 1
    then have "a \<in> set (ptrs (task_stack (pools s q)))"
      using assms(3) set_ptrs by blast
    then show ?thesis using assms(1) unfolding records_ok_def by blast
  next
    case 2
    then have "rptr s th = Some a" by (simp add: rptr_def assms(3))
    then show ?thesis using assms(1) unfolding records_ok_def by blast
  qed
qed

text \<open>Running a packaged task that was held and no longer is.\<close>

lemma evolves_run:
  assumes ok: "records_ok s"
    and held: "holds s t"
    and nh: "next_handle s1 = next_handle s" and h1: "handles s1 = handles s"
    and ok1: "records_ok s1"
    and sub: "\<And>u b. holds s1 u \<Longrightarrow> task_state u = Some b \<Longrightarrow> holds s u"
    and gone: "\<And>a u. task_state t = Some a \<Longrightarrow> holds s1 u \<Longrightarrow> task_state u \<noteq> Some a"
  shows "evolves s (run_if_valid t s1)"
proof (cases "pt_valid t")
  case False
  then have "run_if_valid t s1 = s1" by (rule run_invalid)
  then show ?thesis
    using ok1 nh h1 sub by (auto simp: evolves_def)
next
  case True
  then obtain f a where fa: "fn t = Some f" "task_state t = Some a"
    by (auto simp: pt_valid_def)
  let ?s' = "run_if_valid t s1"
  let ?r = "fst (f (world s1))"
  have h': "handles ?s' = (handles s)(a \<mapsto> ?r)"
    using fa by (simp add: handles_run_valid h1)
  have a: "a < next_handle s" "handles s a = None"
    using held_pending [OF ok held fa(2)] by simp_all
  have c: "core ?s' = ((handles s1)(a \<mapsto> ?r), snd (core s1))"
    by (simp add: core_def h' h1)
  have nota1: "\<forall>q. a \<notin> set (ptrs (task_stack (pools s1 q)))"
  proof (intro allI notI)
    fix q assume "a \<in> set (ptrs (task_stack (pools s1 q)))"
    then obtain u where "u \<in> set (task_stack (pools s1 q))" "task_state u = Some a"
      by (auto simp: set_ptrs)
    then show False using gone [OF fa(2), of u] by (auto simp: holds_def)
  qed
  have nota2: "\<forall>th. rptr s1 th \<noteq> Some a"
  proof (intro allI notI)
    fix th assume "rptr s1 th = Some a"
    then obtain u where "running s1 th = Some u" "task_state u = Some a"
      by (auto simp: rptr_def split: option.splits)
    then show False using gone [OF fa(2), of u] by (auto simp: holds_def)
  qed
  have ok': "records_ok ?s'"
    using ok1 _ nota1 nota2 c by (rule records_ok_complete) (simp add: nh a(1))
  have "\<forall>b r. handles s b = Some r \<longrightarrow> handles ?s' b = Some r"
    using a(2) by (auto simp: h')
  moreover have "\<forall>b r. b < next_handle s \<longrightarrow> handles s b = None \<longrightarrow> handles ?s' b = Some r \<longrightarrow>
         (\<exists>u f w. holds s u \<and> task_state u = Some b \<and> fn u = Some f \<and> r = fst (f w))"
    using held fa by (auto simp: h' split: if_splits)
  moreover have "\<forall>u b. holds ?s' u \<longrightarrow> task_state u = Some b \<longrightarrow> b < next_handle s \<longrightarrow> holds s u"
    using sub by (auto simp: holds_def)
  ultimately show ?thesis
    using ok' nh by (simp add: evolves_def)
qed

lemma records_okI:
  assumes "\<And>a. next_handle s \<le> a \<Longrightarrow> handles s a = None"
    and "\<And>q. distinct (ptrs (task_stack (pools s q)))"
    and "\<And>q a. a \<in> set (ptrs (task_stack (pools s q))) \<Longrightarrow> a < next_handle s \<and> handles s a = None"
    and "\<And>q q' a. q \<noteq> q' \<Longrightarrow> a \<in> set (ptrs (task_stack (pools s q))) \<Longrightarrow>
           a \<notin> set (ptrs (task_stack (pools s q')))"
    and "\<And>th a. rptr s th = Some a \<Longrightarrow> a < next_handle s \<and> handles s a = None"
    and "\<And>th a q. rptr s th = Some a \<Longrightarrow> a \<notin> set (ptrs (task_stack (pools s q)))"
    and "\<And>th th' a. rptr s th = Some a \<Longrightarrow> rptr s th' = Some a \<Longrightarrow> th' = th"
  shows "records_ok s"
proof -
  have 1: "\<forall>a. next_handle s \<le> a \<longrightarrow> handles s a = None"
    using assms(1) by blast
  have 2: "\<forall>q. distinct (ptrs (task_stack (pools s q))) \<and>
           (\<forall>a \<in> set (ptrs (task_stack (pools s q))). a < next_handle s \<and> handles s a = None)"
    using assms(2,3) by blast
  have 3: "\<forall>q q'. q \<noteq> q' \<longrightarrow>
           set (ptrs (task_stack (pools s q))) \<inter> set (ptrs (task_stack (pools s q'))) = {}"
    using assms(4) by blast
  have 4: "\<forall>th a. rptr s th = Some a \<longrightarrow>
           a < next_handle s \<and> handles s a = None \<and>
           (\<forall>q. a \<notin> set (ptrs (task_stack (pools s q)))) \<and>
           (\<forall>th'. th' \<noteq> th \<longrightarrow> rptr s th' \<noteq> Some a)"
    using assms(5,6,7) by blast
  show ?thesis
    unfolding records_ok_def using 1 2 3 4 by (intro conjI)
qed

lemma records_okD1: "records_ok s \<Longrightarrow> next_handle s \<le> a \<Longrightarrow> handles s a = None"
  unfolding records_ok_def by blast

lemma records_okD2: "records_ok s \<Longrightarrow> distinct (ptrs (task_stack (pools s q)))"
  unfolding records_ok_def by blast

lemma records_okD3:
  "records_ok s \<Longrightarrow> a \<in> set (ptrs (task_stack (pools s q))) \<Longrightarrow>
   a < next_handle s \<and> handles s a = None"
  unfolding records_ok_def by blast

lemma records_okD4:
  "records_ok s \<Longrightarrow> q \<noteq> q' \<Longrightarrow> a \<in> set (ptrs (task_stack (pools s q))) \<Longrightarrow>
   a \<notin> set (ptrs (task_stack (pools s q')))"
  unfolding records_ok_def by blast

lemma records_okD5:
  "records_ok s \<Longrightarrow> rptr s th = Some a \<Longrightarrow> a < next_handle s \<and> handles s a = None"
  unfolding records_ok_def by blast

lemma records_okD6:
  "records_ok s \<Longrightarrow> rptr s th = Some a \<Longrightarrow> a \<notin> set (ptrs (task_stack (pools s q)))"
  unfolding records_ok_def by blast

lemma records_okD7:
  "records_ok s \<Longrightarrow> rptr s th = Some a \<Longrightarrow> rptr s th' = Some a \<Longrightarrow> th' = th"
  unfolding records_ok_def by blast

lemma ptrs_Cons_subset: "set (ptrs rest) \<subseteq> set (ptrs (t # rest))"
  by (auto split: option.splits)

lemma ptrs_Cons_distinct: "distinct (ptrs (t # rest)) \<Longrightarrow> distinct (ptrs rest)"
  by (auto split: option.splits)

lemma ptrs_Cons_fresh:
  "distinct (ptrs (t # rest)) \<Longrightarrow> task_state t = Some a \<Longrightarrow> a \<notin> set (ptrs rest)"
  by auto

lemma ptrs_Cons_head: "task_state t = Some a \<Longrightarrow> a \<in> set (ptrs (t # rest))"
  by simp

text \<open>Fewer packaged tasks are held, the records being the same.\<close>

lemma records_ok_shrink:
  assumes ok: "records_ok s"
    and h: "handles s1 = handles s" and nh: "next_handle s1 = next_handle s"
    and sub: "\<And>q. set (ptrs (task_stack (pools s1 q))) \<subseteq> set (ptrs (task_stack (pools s q)))"
    and dis: "\<And>q. distinct (ptrs (task_stack (pools s1 q)))"
    and run: "\<And>th a. rptr s1 th = Some a \<Longrightarrow> rptr s th = Some a"
  shows "records_ok s1"
proof (rule records_okI)
  fix a assume "next_handle s1 \<le> a"
  then show "handles s1 a = None"
    using records_okD1 [OF ok, of a] by (simp add: h nh)
next
  fix q show "distinct (ptrs (task_stack (pools s1 q)))" by (rule dis)
next
  fix q a assume "a \<in> set (ptrs (task_stack (pools s1 q)))"
  then have "a \<in> set (ptrs (task_stack (pools s q)))" using sub by blast
  then show "a < next_handle s1 \<and> handles s1 a = None"
    using records_okD3 [OF ok] by (simp add: h nh)
next
  fix q q' :: nat and a
  assume "q \<noteq> q'" and "a \<in> set (ptrs (task_stack (pools s1 q)))"
  then have "a \<notin> set (ptrs (task_stack (pools s q')))"
    using records_okD4 [OF ok, of q q' a] sub by blast
  then show "a \<notin> set (ptrs (task_stack (pools s1 q')))" using sub by blast
next
  fix th a assume "rptr s1 th = Some a"
  then show "a < next_handle s1 \<and> handles s1 a = None"
    using records_okD5 [OF ok, of th a] run by (simp add: h nh)
next
  fix th a q assume "rptr s1 th = Some a"
  then have "a \<notin> set (ptrs (task_stack (pools s q)))"
    using records_okD6 [OF ok, of th a q] run by blast
  then show "a \<notin> set (ptrs (task_stack (pools s1 q)))" using sub by blast
next
  fix th th' a assume "rptr s1 th = Some a" and "rptr s1 th' = Some a"
  then show "th' = th"
    using records_okD7 [OF ok, of th a th'] run by blast
qed

text \<open>The state after the top of the stack of \<open>q\<close> has been popped.\<close>

lemma pop_stack:
  "task_stack (pools (upd_pool q (\<lambda>p. p\<lparr>task_stack := rest\<rparr>) s) q') =
     (if q' = q then rest else task_stack (pools s q'))"
  by simp

lemma records_ok_pop:
  assumes ok: "records_ok s" and stk: "task_stack (pools s q) = t # rest"
  shows "records_ok (upd_pool q (\<lambda>p. p\<lparr>task_stack := rest\<rparr>) s)"
proof (rule records_ok_shrink [OF ok])
  show "handles (upd_pool q (\<lambda>p. p\<lparr>task_stack := rest\<rparr>) s) = handles s" by simp
  show "next_handle (upd_pool q (\<lambda>p. p\<lparr>task_stack := rest\<rparr>) s) = next_handle s" by simp
  show "set (ptrs (task_stack (pools (upd_pool q (\<lambda>p. p\<lparr>task_stack := rest\<rparr>) s) q'))) \<subseteq>
        set (ptrs (task_stack (pools s q')))" for q'
    using ptrs_Cons_subset [of rest t] by (simp add: stk)
  show "distinct (ptrs (task_stack (pools (upd_pool q (\<lambda>p. p\<lparr>task_stack := rest\<rparr>) s) q')))" for q'
    using records_okD2 [OF ok, of q'] ptrs_Cons_distinct [of t rest] by (auto simp: stk)
  show "rptr (upd_pool q (\<lambda>p. p\<lparr>task_stack := rest\<rparr>) s) th = Some a \<Longrightarrow> rptr s th = Some a" for th a
    by (simp add: rptr_def)
qed

lemma holds_pop:
  assumes "holds (upd_pool q (\<lambda>p. p\<lparr>task_stack := rest\<rparr>) s) u"
    and "task_stack (pools s q) = t # rest"
  shows "holds s u"
proof -
  from assms(1) consider q' where "u \<in> set (task_stack (pools (upd_pool q (\<lambda>p. p\<lparr>task_stack := rest\<rparr>) s) q'))"
    | th where "running s th = Some u"
    unfolding holds_def by auto
  then show ?thesis
  proof cases
    case 1
    then have "u \<in> set (task_stack (pools s q'))"
      using assms(2) by (cases "q' = q") simp_all
    then show ?thesis unfolding holds_def by blast
  next
    case 2
    then show ?thesis unfolding holds_def by blast
  qed
qed

lemma gone_pop:
  assumes ok: "records_ok s" and stk: "task_stack (pools s q) = t # rest"
    and ts: "task_state t = Some a"
    and hu: "holds (upd_pool q (\<lambda>p. p\<lparr>task_stack := rest\<rparr>) s) u"
  shows "task_state u \<noteq> Some a"
proof
  assume ua: "task_state u = Some a"
  have ain: "a \<in> set (ptrs (task_stack (pools s q)))"
    using ts by (simp add: stk)
  from hu consider q' where "u \<in> set (task_stack (pools (upd_pool q (\<lambda>p. p\<lparr>task_stack := rest\<rparr>) s) q'))"
    | th where "running s th = Some u"
    unfolding holds_def by auto
  then show False
  proof cases
    case 1
    show False
    proof (cases "q' = q")
      case True
      then have "u \<in> set rest" using 1 by simp
      then have "a \<in> set (ptrs rest)" using ua set_ptrs by blast
      moreover have "a \<notin> set (ptrs rest)"
        using records_okD2 [OF ok, of q] ts by (intro ptrs_Cons_fresh [of t]) (simp_all add: stk)
      ultimately show False by simp
    next
      case False
      then have "u \<in> set (task_stack (pools s q'))" using 1 by simp
      then have "a \<in> set (ptrs (task_stack (pools s q')))" using ua set_ptrs by blast
      then show False using records_okD4 [OF ok, of q q' a] False ain by blast
    qed
  next
    case 2
    then have "rptr s th = Some a" by (simp add: rptr_def ua)
    then show False using records_okD6 [OF ok, of th a q] ain by blast
  qed
qed

lemma held_top: "task_stack (pools s q) = t # rest \<Longrightarrow> holds s t"
  unfolding holds_def by (intro disjI1 exI [of _ q]) simp

lemma evolves_pop_run:
  assumes ok: "records_ok s" and stk: "task_stack (pools s q) = t # rest"
  shows "evolves s (run_if_valid t (upd_pool q (\<lambda>p. p\<lparr>task_stack := rest\<rparr>) s))"
proof (rule evolves_run [OF ok held_top [OF stk]])
  show "next_handle (upd_pool q (\<lambda>p. p\<lparr>task_stack := rest\<rparr>) s) = next_handle s" by simp
  show "handles (upd_pool q (\<lambda>p. p\<lparr>task_stack := rest\<rparr>) s) = handles s" by simp
  show "records_ok (upd_pool q (\<lambda>p. p\<lparr>task_stack := rest\<rparr>) s)"
    using ok stk by (rule records_ok_pop)
  show "holds (upd_pool q (\<lambda>p. p\<lparr>task_stack := rest\<rparr>) s) u \<Longrightarrow> holds s u" for u
    using holds_pop [OF _ stk] by blast
  show "task_state t = Some a \<Longrightarrow> holds (upd_pool q (\<lambda>p. p\<lparr>task_stack := rest\<rparr>) s) u \<Longrightarrow>
        task_state u \<noteq> Some a" for a u
    using gone_pop [OF ok stk] by blast
qed

lemma evolves_same_handles:
  assumes "records_ok s1" and "handles s1 = handles s" and "next_handle s1 = next_handle s"
    and "\<And>u b. holds s1 u \<Longrightarrow> task_state u = Some b \<Longrightarrow> holds s u"
  shows "evolves s s1"
proof -
  have "\<forall>t a. holds s1 t \<longrightarrow> task_state t = Some a \<longrightarrow> a < next_handle s \<longrightarrow> holds s t"
    using assms(4) by blast
  then show ?thesis
    using assms(1) by (simp add: evolves_def assms(2,3))
qed

lemma evolves_records_ok: "evolves s s' \<Longrightarrow> records_ok s'"
  by (simp add: evolves_def)

lemma evolves_wait_step:
  assumes "records_ok s" and "wait_step tid this a s = Some s1"
  shows "evolves s s1"
proof -
  let ?host = "lookup_tp tid this s"
  let ?stk = "task_stack (pools s ?host)"
  from assms(2) have ne: "?stk \<noteq> []"
    and s1: "s1 = run_if_valid (hd ?stk) (upd_pool ?host (\<lambda>p. p\<lparr>task_stack := tl ?stk\<rparr>) s)"
    by (simp_all add: wait_step_Some)
  from ne have "?stk = hd ?stk # tl ?stk" by simp
  from evolves_pop_run [OF assms(1) this] show ?thesis by (simp add: s1)
qed

lemma evolves_worker_final:
  assumes "records_ok s"
  shows "evolves s (worker_final p s)"
proof (cases "task_stack (pools s p)")
  case Nil
  then have "worker_final p s = s"
    by (simp add: worker_final_def worker_pop_def run_if_valid_def pt_valid_def empty_task_def)
  then show ?thesis using assms by (simp add: evolves_refl)
next
  case (Cons t rest)
  then have "worker_final p s = run_if_valid t (upd_pool p (\<lambda>p. p\<lparr>task_stack := rest\<rparr>) s)"
    by (simp add: worker_final_def worker_pop_def)
  then show ?thesis using evolves_pop_run [OF assms Cons] by simp
qed

lemma worker_unfold:
  "worker pool s =
     (if \<not> (should_terminate (pools s pool) \<or> task_stack (pools s pool) \<noteq> []) then (Waiting, s)
      else if should_terminate (pools (worker_final pool s) pool) then (Exited, worker_final pool s)
      else worker pool (worker_final pool s))"
  by (subst worker.simps) (simp add: worker_final_def Let_def)

lemma evolves_worker:
  "records_ok s \<Longrightarrow> evolves s (snd (worker p s))"
proof (induction p s rule: worker.induct)
  case (1 pool s)
  show ?case
  proof (cases "\<not> (should_terminate (pools s pool) \<or> task_stack (pools s pool) \<noteq> [])")
    case True
    then have "worker pool s = (Waiting, s)" by (subst worker_unfold) simp
    then show ?thesis using "1.prems" by (simp add: evolves_refl)
  next
    case go: False
    have e1: "evolves s (worker_final pool s)"
      using "1.prems" by (rule evolves_worker_final)
    show ?thesis
    proof (cases "should_terminate (pools (worker_final pool s) pool)")
      case True
      then have "worker pool s = (Exited, worker_final pool s)"
        using go by (subst worker_unfold) simp
      then show ?thesis using e1 by simp
    next
      case False
      then have w: "worker pool s = worker pool (worker_final pool s)"
        using go by (subst worker_unfold) simp
      have "evolves (worker_final pool s) (snd (worker pool (worker_final pool s)))"
        using go False evolves_records_ok [OF e1]
        by (intro "1.IH" [unfolded worker_final_def [symmetric]]) (simp_all add: worker_final_def)
      then show ?thesis using e1 w by (simp add: evolves_trans)
    qed
  qed
qed

text \<open>A worker finishes the unit it holds.\<close>

lemma rptr_running_upd:
  "rptr (s\<lparr>running := (running s)(th := None)\<rparr>) th' = (if th' = th then None else rptr s th')"
  by (simp add: rptr_def)

lemma records_ok_release:
  assumes ok: "records_ok s"
  shows "records_ok (s\<lparr>running := (running s)(th := None)\<rparr>)"
proof (rule records_ok_shrink [OF ok])
  show "rptr (s\<lparr>running := (running s)(th := None)\<rparr>) th' = Some a \<Longrightarrow> rptr s th' = Some a" for th' a
    by (simp add: rptr_running_upd split: if_splits)
  show "distinct (ptrs (task_stack (pools (s\<lparr>running := (running s)(th := None)\<rparr>) q)))" for q
    using records_okD2 [OF ok, of q] by simp
qed simp_all

lemma holds_release:
  assumes "holds (s\<lparr>running := (running s)(th := None)\<rparr>) u"
  shows "holds s u"
proof -
  from assms consider q where "u \<in> set (task_stack (pools s q))"
    | th' where "((running s)(th := None)) th' = Some u"
    unfolding holds_def by auto
  then show ?thesis
  proof cases
    case 1
    then show ?thesis unfolding holds_def by blast
  next
    case 2
    then have "running s th' = Some u" by (simp split: if_splits)
    then show ?thesis unfolding holds_def by blast
  qed
qed

lemma gone_release:
  assumes ok: "records_ok s" and run: "running s th = Some t" and ts: "task_state t = Some a"
    and hu: "holds (s\<lparr>running := (running s)(th := None)\<rparr>) u"
  shows "task_state u \<noteq> Some a"
proof
  assume ua: "task_state u = Some a"
  have ra: "rptr s th = Some a" by (simp add: rptr_def run ts)
  from hu consider q where "u \<in> set (task_stack (pools s q))"
    | th' where "((running s)(th := None)) th' = Some u"
    unfolding holds_def by auto
  then show False
  proof cases
    case 1
    then have "a \<in> set (ptrs (task_stack (pools s q)))" using ua set_ptrs by blast
    then show False using records_okD6 [OF ok ra, of q] by blast
  next
    case 2
    then have ne: "th' \<noteq> th" and "running s th' = Some u" by (simp_all split: if_splits)
    then have "rptr s th' = Some a" by (simp add: rptr_def ua)
    then show False using records_okD7 [OF ok ra, of th'] ne by blast
  qed
qed

lemma held_running: "running s th = Some t \<Longrightarrow> holds s t"
  unfolding holds_def by blast

lemma evolves_finish:
  assumes ok: "records_ok s" and run: "running s th = Some t"
  shows "evolves s (run_if_valid t (s\<lparr>running := (running s)(th := None)\<rparr>))"
proof (rule evolves_run [OF ok held_running [OF run]])
  show "records_ok (s\<lparr>running := (running s)(th := None)\<rparr>)"
    using ok by (rule records_ok_release)
  show "holds (s\<lparr>running := (running s)(th := None)\<rparr>) u \<Longrightarrow> holds s u" for u
    by (rule holds_release)
  show "task_state t = Some a \<Longrightarrow> holds (s\<lparr>running := (running s)(th := None)\<rparr>) u \<Longrightarrow>
        task_state u \<noteq> Some a" for a u
    using gone_release [OF ok run] by blast
qed simp_all

lemma evolves_worker_rest:
  assumes ok: "records_ok s" and run: "running s th = Some t"
  shows "evolves s (snd (worker_rest p t (s\<lparr>running := (running s)(th := None)\<rparr>)))"
proof -
  let ?s1 = "run_if_valid t (s\<lparr>running := (running s)(th := None)\<rparr>)"
  have e1: "evolves s ?s1" using ok run by (rule evolves_finish)
  show ?thesis
  proof (cases "should_terminate (pools ?s1 p)")
    case True
    then have "worker_rest p t (s\<lparr>running := (running s)(th := None)\<rparr>) = (Exited, ?s1)"
      by (simp add: worker_rest_def Let_def)
    then show ?thesis using e1 by simp
  next
    case False
    then have "worker_rest p t (s\<lparr>running := (running s)(th := None)\<rparr>) = worker p ?s1"
      by (simp add: worker_rest_def Let_def)
    moreover have "evolves ?s1 (snd (worker p ?s1))"
      using evolves_records_ok [OF e1] by (rule evolves_worker)
    ultimately show ?thesis using e1 by (simp add: evolves_trans)
  qed
qed

lemma core_finished [simp]: "core (s\<lparr>finished := F\<rparr>) = core s"
  by (simp add: core_def)

lemma core_others [simp]: "core (s\<lparr>others := xs\<rparr>) = core s"
  by (simp add: core_def)

lemma evolves_run_thread:
  assumes ok: "records_ok s"
  shows "evolves s (snd (run_thread th p s))"
proof (cases "th \<in> finished s")
  case True
  then show ?thesis using ok by (simp add: run_thread_def evolves_refl)
next
  case nf: False
  show ?thesis
  proof (cases "running s th")
    case None
    obtain o1 s1 where w: "worker p s = (o1, s1)" by (cases "worker p s")
    have e: "evolves s s1" using evolves_worker [OF ok, of p] w by simp
    have "core (snd (run_thread th p s)) = core s1"
      using nf None w by (cases o1) (simp_all add: run_thread_def)
    then show ?thesis using e by (rule evolves_core_right [rotated])
  next
    case (Some t)
    obtain o1 s1 where w: "worker_rest p t (s\<lparr>running := (running s)(th := None)\<rparr>) = (o1, s1)"
      by (cases "worker_rest p t (s\<lparr>running := (running s)(th := None)\<rparr>)")
    have e: "evolves s s1" using evolves_worker_rest [OF ok Some, of p] w by simp
    have "core (snd (run_thread th p s)) = core s1"
      using nf Some w by (cases o1) (simp_all add: run_thread_def)
    then show ?thesis using e by (rule evolves_core_right [rotated])
  qed
qed

text \<open>A worker takes the top of the stack.\<close>

lemma records_ok_take:
  assumes ok: "records_ok s" and stk: "task_stack (pools s q) = t # rest"
    and idl: "running s th = None"
  shows "records_ok ((upd_pool q (\<lambda>p. p\<lparr>task_stack := rest\<rparr>) s)\<lparr>running := (running s)(th \<mapsto> t)\<rparr>)"
    (is "records_ok ?s1")
proof (rule records_okI)
  have stk1: "task_stack (pools ?s1 q') = (if q' = q then rest else task_stack (pools s q'))" for q'
    by simp
  have sub: "set (ptrs (task_stack (pools ?s1 q'))) \<subseteq> set (ptrs (task_stack (pools s q')))" for q'
    using ptrs_Cons_subset [of rest t] by (simp add: stk)
  have rp: "rptr ?s1 th' = (if th' = th then task_state t else rptr s th')" for th'
    by (simp add: rptr_def)
  have rnone: "rptr s th = None" by (simp add: rptr_def idl)
  have top: "task_state t = Some a \<Longrightarrow> a \<in> set (ptrs (task_stack (pools s q)))" for a
    by (simp add: stk)
  have fresh: "task_state t = Some a \<Longrightarrow> a \<notin> set (ptrs rest)" for a
    using records_okD2 [OF ok, of q] by (intro ptrs_Cons_fresh [of t]) (simp_all add: stk)
  {
    fix a assume "next_handle ?s1 \<le> a"
    then show "handles ?s1 a = None" using records_okD1 [OF ok, of a] by simp
  next
    fix q' show "distinct (ptrs (task_stack (pools ?s1 q')))"
      using records_okD2 [OF ok, of q'] ptrs_Cons_distinct [of t rest] by (auto simp: stk)
  next
    fix q' a assume "a \<in> set (ptrs (task_stack (pools ?s1 q')))"
    then have "a \<in> set (ptrs (task_stack (pools s q')))" using sub by blast
    then show "a < next_handle ?s1 \<and> handles ?s1 a = None"
      using records_okD3 [OF ok] by simp
  next
    fix q1 q2 :: nat and a
    assume "q1 \<noteq> q2" and "a \<in> set (ptrs (task_stack (pools ?s1 q1)))"
    then have "a \<notin> set (ptrs (task_stack (pools s q2)))"
      using records_okD4 [OF ok, of q1 q2 a] sub by blast
    then show "a \<notin> set (ptrs (task_stack (pools ?s1 q2)))" using sub by blast
  next
    fix th' a assume r: "rptr ?s1 th' = Some a"
    show "a < next_handle ?s1 \<and> handles ?s1 a = None"
    proof (cases "th' = th")
      case True
      then have "task_state t = Some a" using r by (simp add: rp)
      then show ?thesis using records_okD3 [OF ok top] by simp
    next
      case False
      then have "rptr s th' = Some a" using r by (simp add: rp)
      then show ?thesis using records_okD5 [OF ok] by simp
    qed
  next
    fix th' a q' assume r: "rptr ?s1 th' = Some a"
    show "a \<notin> set (ptrs (task_stack (pools ?s1 q')))"
    proof (cases "th' = th")
      case True
      then have ta: "task_state t = Some a" using r by (simp add: rp)
      show ?thesis
      proof (cases "q' = q")
        case True
        then show ?thesis using fresh [OF ta] by simp
      next
        case False
        then have "a \<notin> set (ptrs (task_stack (pools s q')))"
          using records_okD4 [OF ok, of q q' a] top [OF ta] by blast
        then show ?thesis using sub by blast
      qed
    next
      case False
      then have "rptr s th' = Some a" using r by (simp add: rp)
      then have "a \<notin> set (ptrs (task_stack (pools s q')))"
        using records_okD6 [OF ok] by blast
      then show ?thesis using sub by blast
    qed
  next
    fix th1 th2 a assume r1: "rptr ?s1 th1 = Some a" and r2: "rptr ?s1 th2 = Some a"
    have clash: False if "task_state t = Some a" and "rptr s th' = Some a" for th'
      using records_okD6 [OF ok that(2), of q] top [OF that(1)] by blast
    show "th2 = th1"
    proof (cases "th1 = th")
      case t1: True
      then have ta: "task_state t = Some a" using r1 by (simp add: rp)
      show ?thesis
      proof (cases "th2 = th")
        case True
        then show ?thesis using t1 by simp
      next
        case False
        then have "rptr s th2 = Some a" using r2 by (simp add: rp)
        then show ?thesis using clash [OF ta] by blast
      qed
    next
      case f1: False
      then have ra: "rptr s th1 = Some a" using r1 by (simp add: rp)
      show ?thesis
      proof (cases "th2 = th")
        case True
        then have "task_state t = Some a" using r2 by (simp add: rp)
        then show ?thesis using clash ra by blast
      next
        case False
        then have "rptr s th2 = Some a" using r2 by (simp add: rp)
        then show ?thesis using records_okD7 [OF ok ra] by blast
      qed
    qed
  }
qed

lemma holds_take:
  assumes "holds ((upd_pool q (\<lambda>p. p\<lparr>task_stack := rest\<rparr>) s)\<lparr>running := (running s)(th \<mapsto> t)\<rparr>) u"
    and stk: "task_stack (pools s q) = t # rest"
  shows "holds s u"
proof -
  from assms(1) consider q' where "u \<in> set (task_stack (pools (upd_pool q (\<lambda>p. p\<lparr>task_stack := rest\<rparr>) s) q'))"
    | th' where "((running s)(th \<mapsto> t)) th' = Some u"
    unfolding holds_def by auto
  then show ?thesis
  proof cases
    case 1
    then have "u \<in> set (task_stack (pools s q'))"
      using stk by (cases "q' = q") simp_all
    then show ?thesis unfolding holds_def by blast
  next
    case 2
    show ?thesis
    proof (cases "th' = th")
      case True
      then have "u = t" using 2 by simp
      then show ?thesis using held_top [OF stk] by simp
    next
      case False
      then have "running s th' = Some u" using 2 by simp
      then show ?thesis by (rule held_running)
    qed
  qed
qed

lemma evolves_worker_take:
  assumes ok: "records_ok s"
  shows "evolves s (worker_take th p s)"
proof (cases "th \<in> finished s \<or> running s th \<noteq> None \<or>
         \<not> (should_terminate (pools s p) \<or> task_stack (pools s p) \<noteq> [])")
  case True
  then have "worker_take th p s = s" by (simp add: worker_take_def)
  then show ?thesis using ok by (simp add: evolves_refl)
next
  case False
  then have idl: "running s th = None" by simp
  show ?thesis
  proof (cases "task_stack (pools s p)")
    case Nil
    then have w: "worker_take th p s = s\<lparr>running := (running s)(th \<mapsto> empty_task)\<rparr>"
      using False by (simp add: worker_take_def worker_pop_def)
    have rp: "rptr (s\<lparr>running := (running s)(th \<mapsto> empty_task)\<rparr>) th' = rptr s th'" for th'
      by (simp add: rptr_def idl empty_task_def)
    have ok1: "records_ok (s\<lparr>running := (running s)(th \<mapsto> empty_task)\<rparr>)"
    proof (rule records_ok_shrink [OF ok])
      show "distinct (ptrs (task_stack (pools (s\<lparr>running := (running s)(th \<mapsto> empty_task)\<rparr>) q)))" for q
        using records_okD2 [OF ok, of q] by simp
      show "rptr (s\<lparr>running := (running s)(th \<mapsto> empty_task)\<rparr>) th' = Some a \<Longrightarrow> rptr s th' = Some a" for th' a
        by (simp add: rp)
    qed simp_all
    have "holds s u" if "holds (s\<lparr>running := (running s)(th \<mapsto> empty_task)\<rparr>) u"
      and "task_state u = Some b" for u b
    proof -
      from that(1) consider q where "u \<in> set (task_stack (pools s q))"
        | th' where "((running s)(th \<mapsto> empty_task)) th' = Some u"
        unfolding holds_def by auto
      then show ?thesis
      proof cases
        case 1
        then show ?thesis unfolding holds_def by blast
      next
        case 2
        then have "th' \<noteq> th" using that(2) by (auto simp: empty_task_def)
        then have "running s th' = Some u" using 2 by simp
        then show ?thesis by (rule held_running)
      qed
    qed
    then show ?thesis
      unfolding w using ok1 by (intro evolves_same_handles) simp_all
  next
    case (Cons t rest)
    then have w: "worker_take th p s =
        (upd_pool p (\<lambda>p. p\<lparr>task_stack := rest\<rparr>) s)\<lparr>running := (running s)(th \<mapsto> t)\<rparr>"
      using False by (simp add: worker_take_def worker_pop_def)
    show ?thesis
      unfolding w
    proof (rule evolves_same_handles)
      show "records_ok ((upd_pool p (\<lambda>p. p\<lparr>task_stack := rest\<rparr>) s)\<lparr>running := (running s)(th \<mapsto> t)\<rparr>)"
        using ok Cons idl by (rule records_ok_take)
      show "holds ((upd_pool p (\<lambda>p. p\<lparr>task_stack := rest\<rparr>) s)\<lparr>running := (running s)(th \<mapsto> t)\<rparr>) u \<Longrightarrow>
            holds s u" for u
        using holds_take [OF _ Cons] by blast
    qed simp_all
  qed
qed

text \<open>Submission.\<close>

lemma evolves_push:
  assumes ok: "records_ok s"
  shows "evolves s (upd_pool this (\<lambda>p. p\<lparr>task_stack := \<lparr>fn = Some f, task_state = Some (next_handle s)\<rparr> # task_stack p\<rparr>)
           (s\<lparr>handles := (handles s)(next_handle s := None), next_handle := Suc (next_handle s)\<rparr>))"
    (is "evolves s ?s1")
proof -
  let ?a = "next_handle s"
  let ?t = "\<lparr>fn = Some f, task_state = Some ?a\<rparr> :: 'a packaged_task"
  have hn: "handles s ?a = None" using records_okD1 [OF ok, of ?a] by simp
  have h: "handles ?s1 = handles s" using hn by (simp add: fun_eq_iff)
  have nh: "next_handle ?s1 = Suc ?a" by simp
  have rp: "rptr ?s1 = rptr s" by (simp add: rptr_def fun_eq_iff)
  have pt: "ptrs (task_stack (pools ?s1 q)) =
      (if q = this then ?a # ptrs (task_stack (pools s this)) else ptrs (task_stack (pools s q)))" for q
    by simp
  have lt: "b \<in> set (ptrs (task_stack (pools s q))) \<Longrightarrow> b < ?a" for b q
    using records_okD3 [OF ok, of b q] by simp
  have ok1: "records_ok ?s1"
  proof (rule records_okI)
    fix b assume "next_handle ?s1 \<le> b"
    then show "handles ?s1 b = None" using records_okD1 [OF ok, of b] by (simp add: h)
  next
    fix q
    have "?a \<notin> set (ptrs (task_stack (pools s this)))" using lt [of ?a this] by blast
    then show "distinct (ptrs (task_stack (pools ?s1 q)))"
      using records_okD2 [OF ok] by (simp add: pt)
  next
    fix q b assume "b \<in> set (ptrs (task_stack (pools ?s1 q)))"
    then have "b = ?a \<or> b \<in> set (ptrs (task_stack (pools s q)))"
      by (simp add: pt split: if_splits)
    then show "b < next_handle ?s1 \<and> handles ?s1 b = None"
      using records_okD3 [OF ok, of b q] hn by (auto simp: h nh)
  next
    fix q q' :: nat and b
    assume ne: "q \<noteq> q'" and b: "b \<in> set (ptrs (task_stack (pools ?s1 q)))"
    show "b \<notin> set (ptrs (task_stack (pools ?s1 q')))"
    proof (cases "q = this")
      case True
      then have q': "q' \<noteq> this" using ne by simp
      from b True have "b = ?a \<or> b \<in> set (ptrs (task_stack (pools s q)))" by (simp add: pt)
      then have "b \<notin> set (ptrs (task_stack (pools s q')))"
        using lt [of ?a q'] records_okD4 [OF ok ne, of b] by blast
      then show ?thesis using q' by (simp add: pt)
    next
      case False
      then have bq: "b \<in> set (ptrs (task_stack (pools s q)))" using b by (simp add: pt)
      then have "b \<noteq> ?a" using lt [of b q] by blast
      moreover have "b \<notin> set (ptrs (task_stack (pools s q')))"
        using records_okD4 [OF ok ne bq] .
      ultimately show ?thesis by (auto simp: pt)
    qed
  next
    fix th b assume "rptr ?s1 th = Some b"
    then show "b < next_handle ?s1 \<and> handles ?s1 b = None"
      using records_okD5 [OF ok, of th b] by (simp add: rp h nh)
  next
    fix th b q assume r: "rptr ?s1 th = Some b"
    then have "b < ?a" using records_okD5 [OF ok, of th b] by (simp add: rp)
    moreover have "b \<notin> set (ptrs (task_stack (pools s q)))"
      using records_okD6 [OF ok, of th b q] r by (simp add: rp)
    moreover have "b \<notin> set (ptrs (task_stack (pools s this)))"
      using records_okD6 [OF ok, of th b this] r by (simp add: rp)
    ultimately show "b \<notin> set (ptrs (task_stack (pools ?s1 q)))" by (simp add: pt)
  next
    fix th th' b assume "rptr ?s1 th = Some b" and "rptr ?s1 th' = Some b"
    then show "th' = th" using records_okD7 [OF ok, of th b th'] by (simp add: rp)
  qed
  have old: "holds s u" if "holds ?s1 u" and "task_state u = Some b" and "b < ?a" for u b
  proof -
    from that(1) consider q where "u \<in> set (task_stack (pools ?s1 q))"
      | th where "running s th = Some u"
      unfolding holds_def by auto
    then show ?thesis
    proof cases
      case 1
      have "u \<noteq> ?t" using that(2,3) by auto
      then have "u \<in> set (task_stack (pools s q))"
        using 1 by (cases "q = this") simp_all
      then show ?thesis unfolding holds_def by blast
    next
      case 2
      then show ?thesis by (rule held_running)
    qed
  qed
  have hold: "\<forall>t a. holds ?s1 t \<longrightarrow> task_state t = Some a \<longrightarrow> a < next_handle s \<longrightarrow> holds s t"
    using old by blast
  have nhle: "next_handle s \<le> next_handle ?s1" by simp
  have stab: "\<forall>b r. handles s b = Some r \<longrightarrow> handles ?s1 b = Some r"
    unfolding h by simp
  have prov: "\<forall>b r. b < next_handle s \<longrightarrow> handles s b = None \<longrightarrow> handles ?s1 b = Some r \<longrightarrow>
         (\<exists>t f w. holds s t \<and> task_state t = Some b \<and> fn t = Some f \<and> r = fst (f w))"
    unfolding h by simp
  show ?thesis
    unfolding evolves_def using ok1 nhle stab prov hold by (intro conjI)
qed

lemma evolves_run_new:
  assumes ok: "records_ok s"
  shows "evolves s (pt_call \<lparr>fn = Some f, task_state = Some (next_handle s)\<rparr>
           (s\<lparr>handles := (handles s)(next_handle s := None), next_handle := Suc (next_handle s)\<rparr>))"
    (is "evolves s ?s1")
proof -
  let ?a = "next_handle s"
  have hn: "handles s ?a = None" using records_okD1 [OF ok, of ?a] by simp
  have h: "handles ?s1 b = (if b = ?a then Some (fst (f (world s))) else handles s b)" for b
    by (simp add: pt_call_def)
  have nh: "next_handle ?s1 = Suc ?a" by (simp add: pt_call_def)
  have rp: "rptr ?s1 = rptr s" by (simp add: rptr_def fun_eq_iff pt_call_def)
  have pt: "pools ?s1 = pools s" by (simp add: pt_call_def)
  have hl: "holds ?s1 = holds s" by (simp add: holds_def fun_eq_iff pt_call_def)
  have ok1: "records_ok ?s1"
  proof (rule records_okI)
    fix b assume "next_handle ?s1 \<le> b"
    then show "handles ?s1 b = None" using records_okD1 [OF ok, of b] by (simp add: h nh)
  next
    fix q show "distinct (ptrs (task_stack (pools ?s1 q)))"
      using records_okD2 [OF ok] by (simp add: pt)
  next
    fix q b assume "b \<in> set (ptrs (task_stack (pools ?s1 q)))"
    then show "b < next_handle ?s1 \<and> handles ?s1 b = None"
      using records_okD3 [OF ok, of b q] by (auto simp: pt h nh)
  next
    fix q q' :: nat and b
    assume "q \<noteq> q'" and "b \<in> set (ptrs (task_stack (pools ?s1 q)))"
    then show "b \<notin> set (ptrs (task_stack (pools ?s1 q')))"
      using records_okD4 [OF ok, of q q' b] by (simp add: pt)
  next
    fix th b assume "rptr ?s1 th = Some b"
    then show "b < next_handle ?s1 \<and> handles ?s1 b = None"
      using records_okD5 [OF ok, of th b] by (auto simp: rp h nh)
  next
    fix th b q assume "rptr ?s1 th = Some b"
    then show "b \<notin> set (ptrs (task_stack (pools ?s1 q)))"
      using records_okD6 [OF ok, of th b q] by (simp add: rp pt)
  next
    fix th th' b assume "rptr ?s1 th = Some b" and "rptr ?s1 th' = Some b"
    then show "th' = th" using records_okD7 [OF ok, of th b th'] by (simp add: rp)
  qed
  have stab: "\<forall>b r. handles s b = Some r \<longrightarrow> handles ?s1 b = Some r"
    using hn by (auto simp: h)
  have prov: "\<forall>b r. b < next_handle s \<longrightarrow> handles s b = None \<longrightarrow> handles ?s1 b = Some r \<longrightarrow>
         (\<exists>t f w. holds s t \<and> task_state t = Some b \<and> fn t = Some f \<and> r = fst (f w))"
    by (auto simp: h)
  have nhle: "next_handle s \<le> next_handle ?s1" by (simp add: nh)
  have hold: "\<forall>t a. holds ?s1 t \<longrightarrow> task_state t = Some a \<longrightarrow> a < next_handle s \<longrightarrow> holds s t"
    by (simp add: hl)
  show ?thesis
    unfolding evolves_def using ok1 nhle stab prov hold by (intro conjI)
qed

lemma evolves_execute:
  assumes ok: "records_ok s"
  shows "evolves s (snd (execute this f s))"
proof (cases "concurrency_lvl (pools s this) = 0 \<or> should_terminate (pools s this)")
  case True
  then have "execute this f s = (None, s)" by (rule execute_rejects)
  then show ?thesis using ok by (simp add: evolves_refl)
next
  case False
  show ?thesis
  proof (cases "1 < concurrency_lvl (pools s this)")
    case True
    then have "snd (execute this f s) =
        upd_pool this (\<lambda>p. p\<lparr>task_stack := \<lparr>fn = Some f, task_state = Some (next_handle s)\<rparr> # task_stack p\<rparr>)
           (s\<lparr>handles := (handles s)(next_handle s := None), next_handle := Suc (next_handle s)\<rparr>)"
      using False by (simp add: execute_def Let_def)
    then show ?thesis using evolves_push [OF ok, of this f] by simp
  next
    case one: False
    then have "snd (execute this f s) =
        pt_call \<lparr>fn = Some f, task_state = Some (next_handle s)\<rparr>
           (s\<lparr>handles := (handles s)(next_handle s := None), next_handle := Suc (next_handle s)\<rparr>)"
      using False by (simp add: execute_def Let_def)
    then show ?thesis using evolves_run_new [OF ok, of f] by simp
  qed
qed

text \<open>Shutdown and initialization.\<close>

lemma snd_join: "snd (join t p s) = snd (run_thread t p s)"
  by (cases "run_thread t p s" rule: prod.exhaust [case_product worker_outcome.exhaust])
     (auto simp: join_def split: prod.splits worker_outcome.splits)

lemma evolves_join_all:
  "records_ok s \<Longrightarrow> evolves s (snd (join_all this ts s))"
proof (induction ts arbitrary: s)
  case Nil
  then show ?case by (simp add: evolves_refl)
next
  case (Cons t ts)
  obtain o1 s1 where j: "join t this s = (o1, s1)" by (cases "join t this s")
  have e1: "evolves s s1"
    using evolves_run_thread [OF Cons.prems, of t this] j snd_join [of t this s] by simp
  show ?case
  proof (cases o1)
    case (Returned u)
    have "evolves s1 (snd (join_all this ts s1))"
      using evolves_records_ok [OF e1] by (rule Cons.IH)
    then show ?thesis using e1 j Returned by (simp add: evolves_trans)
  next
    case Blocked
    then show ?thesis using e1 j by simp
  qed
qed

lemma core_upd_flag [simp]: "core (upd_pool p (\<lambda>x. x\<lparr>should_terminate := b\<rparr>) s) = core s"
  by (simp add: core_def fun_eq_iff)

lemma core_upd_threads [simp]: "core (upd_pool p (\<lambda>x. x\<lparr>threads := ts\<rparr>) s) = core s"
  by (simp add: core_def fun_eq_iff)

lemma core_upd_level [simp]: "core (upd_pool p (\<lambda>x. x\<lparr>concurrency_lvl := n\<rparr>) s) = core s"
  by (simp add: core_def fun_eq_iff)

lemma core_remove [simp]: "core (remove_tp_index p s) = core s"
  by (simp add: core_def remove_tp_index_def)

lemma core_add [simp]: "core (add_tp_index p s) = core s"
  by (simp add: core_def add_tp_index_def)

lemma core_emplace [simp]: "core (emplace_back p s) = core s"
  by (simp add: core_def emplace_back_def fun_eq_iff)

lemma evolves_terminate:
  assumes ok: "records_ok s"
  shows "evolves s (snd (terminate this s))"
proof -
  let ?s2 = "remove_tp_index this (upd_pool this (\<lambda>p. p\<lparr>should_terminate := True\<rparr>) s)"
  have c2: "core ?s2 = core s" by simp
  have e2: "evolves s ?s2" using ok c2 by (rule evolves_core)
  obtain o3 s3 where j: "join_all this (threads (pools ?s2 this)) ?s2 = (o3, s3)"
    by (cases "join_all this (threads (pools ?s2 this)) ?s2")
  have "evolves ?s2 s3"
    using evolves_join_all [OF evolves_records_ok [OF e2], of this "threads (pools ?s2 this)"] j
    by simp
  then have e3: "evolves s s3" using e2 by (simp add: evolves_trans)
  have "core (snd (terminate this s)) = core s3"
    using j by (cases o3) (simp_all add: terminate_def Let_def)
  then show ?thesis using e3 by (rule evolves_core_right [rotated])
qed

lemma core_spawn_loop:
  "core (snd (spawn_loop thr this c num_threads i s)) = core s"
proof (induction thr this c num_threads i s rule: spawn_loop.induct)
  case (1 thr this c num_threads i s)
  show ?case
  proof (cases "i < num_threads \<and> thr i = None")
    case True
    then have "spawn_loop thr this c num_threads i s =
        spawn_loop thr this c num_threads (Suc i) (emplace_back this s)"
      by (subst spawn_loop.simps) simp
    then show ?thesis using True "1.IH" by simp
  next
    case False
    then have "snd (spawn_loop thr this c num_threads i s) = s"
      by (subst spawn_loop.simps) (auto split: option.splits)
    then show ?thesis by simp
  qed
qed

lemma evolves_init:
  assumes ok: "records_ok s"
  shows "evolves s (snd (init thr this n s))"
proof (cases "n = 0")
  case True
  then show ?thesis using ok by (simp add: init_def evolves_refl)
next
  case False
  obtain st s1 where sp: "spawn_loop thr this n (n - 1) 0 s = (st, s1)"
    by (cases "spawn_loop thr this n (n - 1) 0 s")
  have "core s1 = core s" using core_spawn_loop [of thr this n "n - 1" 0 s] sp by simp
  with ok have e1: "evolves s s1" by (rule evolves_core)
  show ?thesis
  proof (cases "ok st")
    case True
    then have "core (snd (init thr this n s)) = core s1"
      using False sp by (simp add: init_def)
    then show ?thesis using e1 by (rule evolves_core_right [rotated])
  next
    case nok: False
    have "snd (init thr this n s) = snd (terminate this s1)"
      using False sp nok by (simp add: init_def split: prod.splits outcome.splits)
    moreover have "evolves s1 (snd (terminate this s1))"
      using evolves_records_ok [OF e1] by (rule evolves_terminate)
    ultimately show ?thesis using e1 by (simp add: evolves_trans)
  qed
qed

text \<open>The other threads, and waiting.\<close>

lemma evolves_act:
  assumes ok: "records_ok s"
  shows "evolves s (act x s)"
proof (cases x)
  case (Take t p)
  then show ?thesis using evolves_worker_take [OF ok] by simp
next
  case (Resume t p)
  then show ?thesis using evolves_run_thread [OF ok] by simp
next
  case (Submit p f)
  then show ?thesis using evolves_execute [OF ok] by simp
next
  case (Help tid p a)
  show ?thesis
  proof (cases "wait_step tid p a s")
    case None
    then show ?thesis using Help ok by (simp add: evolves_refl)
  next
    case (Some s1)
    then show ?thesis using Help evolves_wait_step [OF ok Some] by simp
  qed
next
  case (Terminate p)
  then show ?thesis using evolves_terminate [OF ok] by simp
next
  case (Init thr p n)
  then show ?thesis using evolves_init [OF ok] by simp
qed

lemma evolves_await:
  "records_ok s \<Longrightarrow> evolves s (snd (await a xs s))"
proof (induction xs arbitrary: s)
  case Nil
  have "core (snd (await a [] s)) = core s"
    by (simp split: option.splits)
  with Nil show ?case by (rule evolves_core)
next
  case (Cons x xs)
  show ?case
  proof (cases "handles s a")
    case None
    have e1: "evolves s (act x s)" using Cons.prems by (rule evolves_act)
    have "evolves (act x s) (snd (await a xs (act x s)))"
      using evolves_records_ok [OF e1] by (rule Cons.IH)
    then show ?thesis using e1 None by (simp add: evolves_trans)
  next
    case (Some st)
    then have "core (snd (await a (x # xs) s)) = core s" by simp
    with Cons.prems show ?thesis by (rule evolves_core)
  qed
qed

lemma await_Returned:
  "await a xs s = (Returned st, s1) \<Longrightarrow> handles s1 a = Some st"
proof (induction xs arbitrary: s)
  case Nil
  then show ?case by (auto split: option.splits)
next
  case (Cons x xs)
  then show ?case by (cases "handles s a") auto
qed

lemma evolves_wait_loop:
  "records_ok s \<Longrightarrow> evolves s (wait_loop tid this a s)"
proof (induction tid this a s rule: wait_loop.induct)
  case (1 tid this a s)
  show ?case
  proof (cases "wait_step tid this a s")
    case None
    then have "wait_loop tid this a s = s" by (subst wait_loop.simps) simp
    then show ?thesis using "1.prems" by (simp add: evolves_refl)
  next
    case (Some s1)
    then have w: "wait_loop tid this a s = wait_loop tid this a s1"
      by (subst wait_loop.simps) simp
    have e1: "evolves s s1" using "1.prems" Some by (rule evolves_wait_step)
    have "evolves s1 (wait_loop tid this a s1)"
      using Some evolves_records_ok [OF e1] by (rule "1.IH")
    then show ?thesis using e1 w by (simp add: evolves_trans)
  qed
qed

lemma evolves_wait_or_work:
  assumes "records_ok s"
  shows "evolves s (snd (wait_or_work tid this a s))"
proof -
  let ?s1 = "wait_loop tid this a s"
  have e1: "evolves s ?s1" using assms by (rule evolves_wait_loop)
  have "evolves ?s1 (snd (await a (others ?s1) ?s1))"
    using evolves_records_ok [OF e1] by (rule evolves_await)
  then show ?thesis using e1 by (simp add: wait_or_work_def Let_def evolves_trans)
qed

lemma wait_or_work_result:
  "wait_or_work tid this a s = (Returned st, s1) \<Longrightarrow> handles s1 a = Some st"
  unfolding wait_or_work_def Let_def by (rule await_Returned)

lemma evolves_stable: "evolves s s' \<Longrightarrow> handles s a = Some r \<Longrightarrow> handles s' a = Some r"
  unfolding evolves_def by blast

lemma wait_all_status_loop_results:
  "records_ok s \<Longrightarrow> wait_all_status_loop tid this hs acc s = (Returned v, s') \<Longrightarrow>
   evolves s s' \<and>
   (\<exists>v'. v = acc @ v' \<and> length v' = length hs \<and>
     (\<forall>i < length hs.
        (hs ! i = None \<longrightarrow> v' ! i = ThreadPoolError ''Invalid task future'') \<and>
        (\<forall>a. hs ! i = Some a \<longrightarrow> handles s' a = Some (v' ! i))))"
proof (induction hs arbitrary: acc s)
  case Nil
  then show ?case by (simp add: evolves_refl)
next
  case (Cons h hs)
  show ?case
  proof (cases h)
    case None
    then have "wait_all_status_loop tid this hs (acc @ [ThreadPoolError ''Invalid task future'']) s =
        (Returned v, s')"
      using Cons.prems by simp
    from Cons.IH [OF Cons.prems(1) this] obtain v' where v':
      "evolves s s'"
      "v = (acc @ [ThreadPoolError ''Invalid task future'']) @ v'" "length v' = length hs"
      "\<forall>i < length hs.
        (hs ! i = None \<longrightarrow> v' ! i = ThreadPoolError ''Invalid task future'') \<and>
        (\<forall>a. hs ! i = Some a \<longrightarrow> handles s' a = Some (v' ! i))"
      by blast
    let ?v = "ThreadPoolError ''Invalid task future'' # v'"
    have a: "v = acc @ ?v" "length ?v = length (h # hs)"
      using v'(2,3) by simp_all
    have b: "\<forall>i < length (h # hs).
        ((h # hs) ! i = None \<longrightarrow> ?v ! i = ThreadPoolError ''Invalid task future'') \<and>
        (\<forall>a. (h # hs) ! i = Some a \<longrightarrow> handles s' a = Some (?v ! i))"
    proof (intro allI impI)
      fix i assume i: "i < length (h # hs)"
      show "((h # hs) ! i = None \<longrightarrow> ?v ! i = ThreadPoolError ''Invalid task future'') \<and>
        (\<forall>a. (h # hs) ! i = Some a \<longrightarrow> handles s' a = Some (?v ! i))"
      proof (cases i)
        case 0
        then show ?thesis using None by simp
      next
        case (Suc j)
        then have "j < length hs" using i by simp
        then show ?thesis using v'(4) Suc by simp
      qed
    qed
    show ?thesis using v'(1) a b by blast
  next
    case (Some a)
    obtain o1 s1 where w: "wait_or_work tid this a s = (o1, s1)"
      by (cases "wait_or_work tid this a s")
    obtain st where st: "o1 = Returned st"
      using Cons.prems(2) Some w by (cases o1) simp_all
    have e1: "evolves s s1"
      using evolves_wait_or_work [OF Cons.prems(1), of tid this a] w by simp
    have r1: "handles s1 a = Some st"
      using w st by (intro wait_or_work_result [of tid this a s]) simp
    have "wait_all_status_loop tid this hs (acc @ [st]) s1 = (Returned v, s')"
      using Cons.prems(2) Some w st by simp
    from Cons.IH [OF evolves_records_ok [OF e1] this] obtain v' where v':
      "evolves s1 s'"
      "v = (acc @ [st]) @ v'" "length v' = length hs"
      "\<forall>i < length hs.
        (hs ! i = None \<longrightarrow> v' ! i = ThreadPoolError ''Invalid task future'') \<and>
        (\<forall>a. hs ! i = Some a \<longrightarrow> handles s' a = Some (v' ! i))"
      by blast
    let ?v = "st # v'"
    have a: "v = acc @ ?v" "length ?v = length (h # hs)"
      using v'(2,3) by simp_all
    have fin: "handles s' a = Some st" using v'(1) r1 by (rule evolves_stable)
    have b: "\<forall>i < length (h # hs).
        ((h # hs) ! i = None \<longrightarrow> ?v ! i = ThreadPoolError ''Invalid task future'') \<and>
        (\<forall>a. (h # hs) ! i = Some a \<longrightarrow> handles s' a = Some (?v ! i))"
    proof (intro allI impI)
      fix i assume i: "i < length (h # hs)"
      show "((h # hs) ! i = None \<longrightarrow> ?v ! i = ThreadPoolError ''Invalid task future'') \<and>
        (\<forall>a. (h # hs) ! i = Some a \<longrightarrow> handles s' a = Some (?v ! i))"
      proof (cases i)
        case 0
        then show ?thesis using Some fin by simp
      next
        case (Suc j)
        then have "j < length hs" using i by simp
        then show ?thesis using v'(4) Suc by simp
      qed
    qed
    have "evolves s s'" using e1 v'(1) by (rule evolves_trans)
    then show ?thesis using a b by blast
  qed
qed



subsection \<open>Waiting on several futures\<close>

text \<open>Waiting for records that are pending on the host's stack.\<close>

lemma handles_fold_run_upd_pool [simp]:
  "handles (fold run_if_valid ts (upd_pool p g s)) = handles (fold run_if_valid ts s)"
  by (simp add: fold_run_upd_pool)

lemma fold_run_done_mono:
  "handles s b \<noteq> None \<Longrightarrow> handles (fold run_if_valid ts s) b \<noteq> None"
proof (induction ts arbitrary: s)
  case Nil
  then show ?case by simp
next
  case (Cons t ts)
  have "handles (run_if_valid t s) b \<noteq> None"
    using Cons.prems by (rule run_if_valid_done_mono)
  then have "handles (fold run_if_valid ts (run_if_valid t s)) b \<noteq> None"
    by (rule Cons.IH)
  then show ?case by simp
qed

lemma fold_run_completes:
  "t \<in> set ts \<Longrightarrow> pt_valid t \<Longrightarrow> task_state t = Some b \<Longrightarrow>
   handles (fold run_if_valid ts s) b \<noteq> None"
proof (induction ts arbitrary: s)
  case Nil
  then show ?case by simp
next
  case (Cons u ts)
  show ?case
  proof (cases "t = u")
    case True
    then have "handles (run_if_valid u s) b \<noteq> None"
      using Cons.prems(2,3) by (intro run_if_valid_completes) simp_all
    then have "handles (fold run_if_valid ts (run_if_valid u s)) b \<noteq> None"
      by (rule fold_run_done_mono)
    then show ?thesis by simp
  next
    case False
    then show ?thesis using Cons by simp
  qed
qed

lemma helped_refl: "helped host s s"
proof -
  have "task_stack (pools s host) = drop 0 (task_stack (pools s host))" by simp
  then show ?thesis unfolding helped_def by blast
qed

lemma helped_trans:
  assumes "helped host s s1" and "helped host s1 s2"
  shows "helped host s s2"
proof -
  from assms obtain k1 k2 where
    "task_stack (pools s1 host) = drop k1 (task_stack (pools s host))"
    "task_stack (pools s2 host) = drop k2 (task_stack (pools s1 host))"
    unfolding helped_def by blast
  then have "task_stack (pools s2 host) = drop (k1 + k2) (task_stack (pools s host))"
    by (simp add: add.commute)
  then have "\<exists>k. task_stack (pools s2 host) = drop k (task_stack (pools s host))" by blast
  then show ?thesis
    using assms unfolding helped_def by simp
qed

lemma wait_loop_helped: "helped (lookup_tp tid this s) s (wait_loop tid this a s)"
proof -
  let ?host = "lookup_tp tid this s"
  let ?stk = "task_stack (pools s ?host)"
  from wait_loop_folds [of s tid this a] obtain k where k:
    "wait_loop tid this a s =
       fold run_if_valid (take k ?stk) (upd_pool ?host (\<lambda>p. p\<lparr>task_stack := drop k ?stk\<rparr>) s)"
    by blast
  let ?s' = "wait_loop tid this a s"
  have h: "handles ?s' = handles (fold run_if_valid (take k ?stk) s)"
    by (simp add: k)
  have stk': "task_stack (pools ?s' ?host) = drop k ?stk"
    by (simp add: k)
  have "tp_index ?s' = tp_index s" by (simp add: k)
  moreover have "\<exists>k. task_stack (pools ?s' ?host) = drop k ?stk"
    using stk' by blast
  moreover have mono: "\<forall>b. handles s b \<noteq> None \<longrightarrow> handles ?s' b \<noteq> None"
    unfolding h by (intro allI impI fold_run_done_mono)
  moreover have "\<forall>b. pending_or_done ?host b s \<longrightarrow> pending_or_done ?host b ?s'"
  proof (intro allI impI)
    fix b assume "pending_or_done ?host b s"
    then consider "handles s b \<noteq> None"
      | t where "t \<in> set ?stk" "pt_valid t" "task_state t = Some b"
      unfolding pending_or_done_def by blast
    then show "pending_or_done ?host b ?s'"
    proof cases
      case 1
      then show ?thesis using mono by (simp add: pending_or_done_def)
    next
      case 2
      have "?stk = take k ?stk @ drop k ?stk" by simp
      then have "t \<in> set (take k ?stk) \<or> t \<in> set (drop k ?stk)"
        using 2(1) by (metis Un_iff set_append)
      then show ?thesis
      proof
        assume "t \<in> set (take k ?stk)"
        then have "handles ?s' b \<noteq> None"
          unfolding h using 2(2,3) by (rule fold_run_completes)
        then show ?thesis by (simp add: pending_or_done_def)
      next
        assume "t \<in> set (drop k ?stk)"
        then show ?thesis
          using 2(2,3) stk' unfolding pending_or_done_def by auto
      qed
    qed
  qed
  ultimately show ?thesis unfolding helped_def by blast
qed

lemma wait_loop_frame:
  "running (wait_loop tid this a s) = running s"
  "finished (wait_loop tid this a s) = finished s"
  "others (wait_loop tid this a s) = others s"
  "tp_index (wait_loop tid this a s) = tp_index s"
proof -
  let ?host = "lookup_tp tid this s"
  let ?stk = "task_stack (pools s ?host)"
  from wait_loop_folds [of s tid this a] obtain k where k:
    "wait_loop tid this a s =
       fold run_if_valid (take k ?stk) (upd_pool ?host (\<lambda>p. p\<lparr>task_stack := drop k ?stk\<rparr>) s)"
    by blast
  show "running (wait_loop tid this a s) = running s"
    "finished (wait_loop tid this a s) = finished s"
    "others (wait_loop tid this a s) = others s"
    "tp_index (wait_loop tid this a s) = tp_index s"
    by (simp_all add: k)
qed

lemma wait_loop_end:
  assumes "handles (wait_loop tid this a s) a = None"
  shows "task_stack (pools (wait_loop tid this a s) (lookup_tp tid this s)) = []"
proof -
  let ?host = "lookup_tp tid this s"
  let ?s' = "wait_loop tid this a s"
  from wait_loop_folds [of s tid this a] obtain k where k:
    "?s' = fold run_if_valid (take k (task_stack (pools s ?host)))
        (upd_pool ?host (\<lambda>p. p\<lparr>task_stack := drop k (task_stack (pools s ?host))\<rparr>) s)"
    "task_done a ?s' \<or> k = length (task_stack (pools s ?host))"
    by blast
  from k(2) assms have "k = length (task_stack (pools s ?host))"
    by (simp add: task_done_def)
  then show ?thesis by (simp add: k(1))
qed

lemma wait_loop_target:
  assumes "pending_or_done (lookup_tp tid this s) a s"
  shows "handles (wait_loop tid this a s) a \<noteq> None"
proof
  let ?host = "lookup_tp tid this s"
  let ?s' = "wait_loop tid this a s"
  assume n: "handles ?s' a = None"
  have p: "pending_or_done ?host a ?s'"
    using wait_loop_helped [of tid this s a] assms unfolding helped_def by blast
  have "task_stack (pools ?s' ?host) = []" using n by (rule wait_loop_end)
  then show False using p n by (simp add: pending_or_done_def)
qed

lemma others_same [simp]: "s\<lparr>others := others s\<rparr> = s"
  by simp

lemma wait_or_work_done:
  "handles (wait_loop tid this a s) a = Some st \<Longrightarrow>
   wait_or_work tid this a s = (Returned st, wait_loop tid this a s)"
  by (simp add: wait_or_work_def Let_def await_done)

lemma wait_all_status_loop_total:
  "\<forall>a. Some a \<in> set hs \<longrightarrow> pending_or_done (lookup_tp tid this s) a s \<Longrightarrow>
   \<exists>v s'. wait_all_status_loop tid this hs acc s = (Returned v, s')"
proof (induction hs arbitrary: acc s)
  case Nil
  then show ?case by simp
next
  case (Cons h hs)
  let ?host = "lookup_tp tid this s"
  show ?case
  proof (cases h)
    case None
    have "\<forall>a. Some a \<in> set hs \<longrightarrow> pending_or_done ?host a s"
      using Cons.prems by simp
    from Cons.IH [OF this] show ?thesis using None by simp
  next
    case (Some a)
    let ?s1 = "wait_loop tid this a s"
    have "pending_or_done ?host a s" using Cons.prems Some by simp
    then have "handles ?s1 a \<noteq> None" by (rule wait_loop_target)
    then obtain st where "handles ?s1 a = Some st" by blast
    then have w: "wait_or_work tid this a s = (Returned st, ?s1)"
      by (rule wait_or_work_done)
    have h1: "helped ?host s ?s1" by (rule wait_loop_helped)
    then have host1: "lookup_tp tid this ?s1 = ?host"
      by (simp add: helped_def lookup_tp_def)
    have "\<forall>b. Some b \<in> set hs \<longrightarrow> pending_or_done (lookup_tp tid this ?s1) b ?s1"
      using Cons.prems h1 unfolding host1 helped_def by auto
    from Cons.IH [OF this] show ?thesis using Some w by simp
  qed
qed


lemma wait_all_loop_all_ok: "\<forall>st \<in> set v. ok st \<Longrightarrow> wait_all_loop v = Ok"
  by (induction v) simp_all

lemma wait_all_loop_first:
  "i < length v \<Longrightarrow> \<not> ok (v ! i) \<Longrightarrow> \<forall>j < i. ok (v ! j) \<Longrightarrow> wait_all_loop v = v ! i"
proof (induction v arbitrary: i)
  case Nil
  then show ?case by simp
next
  case (Cons st v)
  show ?case
  proof (cases i)
    case 0
    then show ?thesis using Cons.prems by simp
  next
    case (Suc i')
    have "ok st" using Cons.prems(3) Suc by auto
    moreover have "wait_all_loop v = v ! i'"
      using Cons.prems Suc by (intro Cons.IH) auto
    ultimately show ?thesis using Suc by simp
  qed
qed

text \<open>Waiting for records whose units are being run by workers.\<close>

lemma worker_frame:
  "running (snd (worker p s)) = running s \<and> finished (snd (worker p s)) = finished s \<and>
   tp_index (snd (worker p s)) = tp_index s"
proof (induction p s rule: worker.induct)
  case (1 pool s)
  show ?case
  proof (cases "\<not> (should_terminate (pools s pool) \<or> task_stack (pools s pool) \<noteq> [])")
    case True
    then have "worker pool s = (Waiting, s)" by (subst worker_unfold) simp
    then show ?thesis by simp
  next
    case go: False
    show ?thesis
    proof (cases "should_terminate (pools (worker_final pool s) pool)")
      case True
      then have "worker pool s = (Exited, worker_final pool s)"
        using go by (subst worker_unfold) simp
      then show ?thesis by (simp add: worker_final_frame)
    next
      case False
      then have w: "worker pool s = worker pool (worker_final pool s)"
        using go by (subst worker_unfold) simp
      have "running (snd (worker pool (worker_final pool s))) = running (worker_final pool s) \<and>
            finished (snd (worker pool (worker_final pool s))) = finished (worker_final pool s) \<and>
            tp_index (snd (worker pool (worker_final pool s))) = tp_index (worker_final pool s)"
        using go False
        by (intro "1.IH" [unfolded worker_final_def [symmetric]]) (simp_all add: worker_final_def)
      then show ?thesis by (simp add: w worker_final_frame)
    qed
  qed
qed

lemma worker_rest_frame:
  "running (snd (worker_rest p t s)) = running s \<and> finished (snd (worker_rest p t s)) = finished s \<and>
   tp_index (snd (worker_rest p t s)) = tp_index s"
  using worker_frame [of p "run_if_valid t s"] by (simp add: worker_rest_def Let_def)

lemma run_thread_frame:
  "tp_index (snd (run_thread th p s)) = tp_index s"
  "th' \<noteq> th \<Longrightarrow> running (snd (run_thread th p s)) th' = running s th'"
  "finished (snd (run_thread th p s)) \<subseteq> insert th (finished s)"
proof -
  have "tp_index (snd (run_thread th p s)) = tp_index s \<and>
        (th' \<noteq> th \<longrightarrow> running (snd (run_thread th p s)) th' = running s th') \<and>
        finished (snd (run_thread th p s)) \<subseteq> insert th (finished s)"
  proof (cases "th \<in> finished s")
    case True
    then show ?thesis by (auto simp: run_thread_def)
  next
    case nf: False
    show ?thesis
    proof (cases "running s th")
      case None
      obtain o1 s1 where w: "worker p s = (o1, s1)" by (cases "worker p s")
      have f: "running s1 = running s" "finished s1 = finished s" "tp_index s1 = tp_index s"
        using worker_frame [of p s] w by simp_all
      show ?thesis
        using nf None w f by (cases o1) (auto simp: run_thread_def)
    next
      case (Some t)
      let ?s0 = "s\<lparr>running := (running s)(th := None)\<rparr>"
      obtain o1 s1 where w: "worker_rest p t ?s0 = (o1, s1)" by (cases "worker_rest p t ?s0")
      have f: "running s1 = (running s)(th := None)" "finished s1 = finished s"
        "tp_index s1 = tp_index s"
        using worker_rest_frame [of p t ?s0] w by simp_all
      show ?thesis
        using nf Some w f by (cases o1) (auto simp: run_thread_def)
    qed
  qed
  then show "tp_index (snd (run_thread th p s)) = tp_index s"
    "th' \<noteq> th \<Longrightarrow> running (snd (run_thread th p s)) th' = running s th'"
    "finished (snd (run_thread th p s)) \<subseteq> insert th (finished s)"
    by blast+
qed

lemma evolves_done_mono: "evolves s s' \<Longrightarrow> handles s b \<noteq> None \<Longrightarrow> handles s' b \<noteq> None"
  using evolves_stable [of s s' b] by auto

lemma run_thread_completes:
  assumes ok: "records_ok s" and nf: "th \<notin> finished s" and run: "running s th = Some t"
    and v: "pt_valid t" and ts: "task_state t = Some b"
  shows "handles (snd (run_thread th p s)) b \<noteq> None"
proof -
  let ?s0 = "s\<lparr>running := (running s)(th := None)\<rparr>"
  let ?s1 = "run_if_valid t ?s0"
  have d1: "handles ?s1 b \<noteq> None" using v ts by (rule run_if_valid_completes)
  have ok1: "records_ok ?s1" using evolves_finish [OF ok run] by (rule evolves_records_ok)
  obtain o1 s2 where w: "worker_rest p t ?s0 = (o1, s2)" by (cases "worker_rest p t ?s0")
  have "handles s2 b \<noteq> None"
  proof (cases "should_terminate (pools ?s1 p)")
    case True
    then have "s2 = ?s1" using w by (simp add: worker_rest_def Let_def)
    then show ?thesis using d1 by simp
  next
    case False
    then have "s2 = snd (worker p ?s1)" using w by (simp add: worker_rest_def Let_def)
    then show ?thesis using evolves_done_mono [OF evolves_worker [OF ok1, of p] d1] by simp
  qed
  moreover have "handles (snd (run_thread th p s)) = handles s2"
    using nf run w by (cases o1) (simp_all add: run_thread_def)
  ultimately show ?thesis by simp
qed

lemma resumed_others [simp]: "resumed b xs (s\<lparr>others := ys\<rparr>) = resumed b xs s"
  by (simp add: resumed_def)

lemma resume_step:
  assumes ok: "records_ok s"
    and c: "handles s b \<noteq> None \<or> resumed b (Resume th' p' # xs) s"
  shows "handles (snd (run_thread th' p' s)) b \<noteq> None \<or> resumed b xs (snd (run_thread th' p' s))"
proof (cases "handles s b \<noteq> None")
  case True
  then have "handles (snd (run_thread th' p' s)) b \<noteq> None"
    using evolves_done_mono [OF evolves_run_thread [OF ok]] by blast
  then show ?thesis by blast
next
  case False
  with c obtain th p t where r: "Resume th p \<in> set (Resume th' p' # xs)" "th \<notin> finished s"
    "running s th = Some t" "pt_valid t" "task_state t = Some b"
    unfolding resumed_def by blast
  show ?thesis
  proof (cases "th = th'")
    case True
    then have "handles (snd (run_thread th' p' s)) b \<noteq> None"
      using run_thread_completes [OF ok r(2,3,4,5), of p'] by simp
    then show ?thesis by blast
  next
    case ne: False
    then have "Resume th p \<in> set xs" using r(1) by simp
    moreover have "th \<notin> finished (snd (run_thread th' p' s))"
      using run_thread_frame(3) [of th' p' s] r(2) ne by blast
    moreover have "running (snd (run_thread th' p' s)) th = Some t"
      using run_thread_frame(2) [OF ne, of p' s] r(3) by simp
    ultimately have "resumed b xs (snd (run_thread th' p' s))"
      unfolding resumed_def using r(4,5) by blast
    then show ?thesis by blast
  qed
qed

lemma resume_only_Cons:
  "resume_only (x # xs) \<Longrightarrow> \<exists>th p. x = Resume th p \<and> resume_only xs"
  by (cases x) simp_all

lemma await_resumes:
  "records_ok s \<Longrightarrow> resume_only xs \<Longrightarrow> \<forall>b \<in> B. handles s b \<noteq> None \<or> resumed b xs s \<Longrightarrow> a \<in> B \<Longrightarrow>
   \<exists>st s1. await a xs s = (Returned st, s1) \<and> resume_only (others s1) \<and>
     tp_index s1 = tp_index s \<and>
     (\<forall>b \<in> B. handles s1 b \<noteq> None \<or> resumed b (others s1) s1)"
proof (induction xs arbitrary: s)
  case Nil
  have nr: "\<not> resumed b [] s" for b by (simp add: resumed_def)
  then have all: "\<forall>b \<in> B. handles s b \<noteq> None" using Nil.prems(3) by blast
  then obtain st where st: "handles s a = Some st" using Nil.prems(4) by blast
  then have "await a [] s = (Returned st, s\<lparr>others := []\<rparr>)" by simp
  then show ?case using all by simp
next
  case (Cons x xs)
  from resume_only_Cons [OF Cons.prems(2)] obtain th p where x: "x = Resume th p"
    and ro: "resume_only xs" by blast
  show ?case
  proof (cases "handles s a")
    case (Some st)
    then have "await a (x # xs) s = (Returned st, s\<lparr>others := x # xs\<rparr>)" by simp
    then show ?thesis using Cons.prems(2,3) by simp
  next
    case None
    let ?s1 = "snd (run_thread th p s)"
    have aw: "await a (x # xs) s = await a xs ?s1" using None x by simp
    have ok1: "records_ok ?s1"
      using evolves_run_thread [OF Cons.prems(1)] by (rule evolves_records_ok)
    have inv: "\<forall>b \<in> B. handles ?s1 b \<noteq> None \<or> resumed b xs ?s1"
      using resume_step [OF Cons.prems(1)] Cons.prems(3) unfolding x by blast
    from Cons.IH [OF ok1 ro inv Cons.prems(4)] obtain st s1 where
      "await a xs ?s1 = (Returned st, s1)" "resume_only (others s1)" "tp_index s1 = tp_index ?s1"
      "\<forall>b \<in> B. handles s1 b \<noteq> None \<or> resumed b (others s1) s1"
      by blast
    then show ?thesis
      using aw run_thread_frame(1) [of th p s] by simp
  qed
qed

lemma wait_all_status_loop_resumes:
  "records_ok s \<Longrightarrow> resume_only (others s) \<Longrightarrow>
   \<forall>a. Some a \<in> set hs \<longrightarrow> covered (lookup_tp tid this s) a (others s) s \<Longrightarrow>
   \<exists>v s'. wait_all_status_loop tid this hs acc s = (Returned v, s')"
proof (induction hs arbitrary: acc s)
  case Nil
  then show ?case by simp
next
  case (Cons h hs)
  let ?host = "lookup_tp tid this s"
  show ?case
  proof (cases h)
    case None
    have "\<forall>a. Some a \<in> set hs \<longrightarrow> covered ?host a (others s) s"
      using Cons.prems(3) by simp
    from Cons.IH [OF Cons.prems(1,2) this] show ?thesis using None by simp
  next
    case (Some a)
    let ?sl = "wait_loop tid this a s"
    let ?B = "{b. Some b \<in> set (h # hs)}"
    have okl: "records_ok ?sl"
      using evolves_wait_loop [OF Cons.prems(1)] by (rule evolves_records_ok)
    have fr: "running ?sl = running s" "finished ?sl = finished s" "others ?sl = others s"
      "tp_index ?sl = tp_index s"
      by (rule wait_loop_frame)+
    have hostl: "lookup_tp tid this ?sl = ?host"
      by (simp add: lookup_tp_def fr(4))
    have hp: "helped ?host s ?sl" by (rule wait_loop_helped)
    have res: "resumed b xs ?sl = resumed b xs s" for b xs
      by (simp add: resumed_def fr)
    have covl: "\<forall>b \<in> ?B. covered ?host b (others s) ?sl"
    proof
      fix b assume "b \<in> ?B"
      then have "covered ?host b (others s) s" using Cons.prems(3) by blast
      then show "covered ?host b (others s) ?sl"
        using hp unfolding covered_def helped_def res by blast
    qed
    have rol: "resume_only (others ?sl)" using Cons.prems(2) by (simp add: fr)
    have "\<exists>st s1. wait_or_work tid this a s = (Returned st, s1) \<and> records_ok s1 \<and>
        resume_only (others s1) \<and> tp_index s1 = tp_index s \<and>
        (\<forall>b \<in> ?B. covered ?host b (others s1) s1)"
    proof (cases "handles ?sl a")
      case (Some st)
      then have "wait_or_work tid this a s = (Returned st, ?sl)" by (rule wait_or_work_done)
      then show ?thesis using okl rol fr(4) covl by (simp add: fr(3))
    next
      case None
      then have emp: "task_stack (pools ?sl ?host) = []" by (rule wait_loop_end)
      have inv: "\<forall>b \<in> ?B. handles ?sl b \<noteq> None \<or> resumed b (others ?sl) ?sl"
      proof
        fix b assume "b \<in> ?B"
        then have "covered ?host b (others s) ?sl" using covl by blast
        then show "handles ?sl b \<noteq> None \<or> resumed b (others ?sl) ?sl"
          using emp by (auto simp: covered_def pending_or_done_def fr(3))
      qed
      have "a \<in> ?B" using Some by simp
      from await_resumes [OF okl rol inv this] obtain st s1 where a:
        "await a (others ?sl) ?sl = (Returned st, s1)" "resume_only (others s1)"
        "tp_index s1 = tp_index ?sl"
        "\<forall>b \<in> ?B. handles s1 b \<noteq> None \<or> resumed b (others s1) s1"
        by blast
      have w: "wait_or_work tid this a s = (Returned st, s1)"
        using a(1) by (simp add: wait_or_work_def Let_def)
      have ok1: "records_ok s1"
        using evolves_await [OF okl, of a "others ?sl"] a(1) by (simp add: evolves_records_ok)
      have "\<forall>b \<in> ?B. covered ?host b (others s1) s1"
        using a(4) by (auto simp: covered_def pending_or_done_def)
      then show ?thesis using w ok1 a(2,3) fr(4) by simp
    qed
    then obtain st s1 where w: "wait_or_work tid this a s = (Returned st, s1)"
      and ok1: "records_ok s1" and ro1: "resume_only (others s1)"
      and tp1: "tp_index s1 = tp_index s"
      and cov1: "\<forall>b \<in> ?B. covered ?host b (others s1) s1"
      by blast
    have host1: "lookup_tp tid this s1 = ?host" by (simp add: lookup_tp_def tp1)
    have "\<forall>b. Some b \<in> set hs \<longrightarrow> covered (lookup_tp tid this s1) b (others s1) s1"
      using cov1 by (simp add: host1)
    from Cons.IH [OF ok1 ro1 this] show ?thesis using Some w by simp
  qed
qed

text \<open>The records of the example states are in order.\<close>

lemma records_ok_sys0: "records_ok (sys0 w)"
  by (simp add: records_ok_def sys0_def ThreadPool_def rptr_def)

lemma records_ok_init: "records_ok s \<Longrightarrow> records_ok (snd (init thr this n s))"
  using evolves_init by (rule evolves_records_ok)

lemma records_ok_execute: "records_ok s \<Longrightarrow> records_ok (snd (execute this f s))"
  using evolves_execute by (rule evolves_records_ok)

lemma records_ok_worker_take: "records_ok s \<Longrightarrow> records_ok (worker_take t p s)"
  using evolves_worker_take by (rule evolves_records_ok)

lemma records_ok_terminate: "records_ok s \<Longrightarrow> records_ok (snd (terminate this s))"
  using evolves_terminate by (rule evolves_records_ok)

lemma records_ok_pool2: "records_ok pool2"
  unfolding pool2_def by (intro records_ok_init records_ok_sys0)

lemma records_ok_mixed2: "records_ok mixed2"
  unfolding mixed2_def by (intro records_ok_execute records_ok_pool2)

lemma records_ok_running3: "records_ok running3"
  unfolding running3_def by (intro records_ok_execute records_ok_worker_take records_ok_pool2)

lemma records_ok_resumed3: "records_ok resumed3"
  using records_ok_running3 records_ok_core [of resumed3 running3]
  by (simp add: resumed3_def)

lemma mixed2_eq:
  "mixed2 = \<lparr>pools = (\<lambda>_. ThreadPool)(0 := \<lparr>concurrency_lvl = 2, should_terminate = False,
               task_stack = [\<lparr>fn = Some (mark 2 Ok), task_state = Some 1\<rparr>,
                             \<lparr>fn = Some (mark 1 (Error ''boom'')), task_state = Some 0\<rparr>],
               threads = [0]\<rparr>),
             tp_index = [0 \<mapsto> 0], handles = (\<lambda>_. None), next_handle = 2, next_tid = 1,
             finished = {}, running = Map.empty, others = [], world = []\<rparr>"
  by (simp add: mixed2_def pool2_eq execute_def Let_def get_future_def upd_pool_def fun_upd_idem)

lemma wait_all_status_mixed2:
  "wait_all_status 9 0 [Some 0, None, Some 1] mixed2 =
     (Returned [Error ''boom'', ThreadPoolError ''Invalid task future'', Ok], waited2)"
  by (simp add: waited2_def wait_all_status_def wait_or_work_def mixed2_eq wait_loop.simps
      wait_step_def lookup_tp_def task_done_def run_if_valid_def pt_valid_def pt_call_def
      upd_pool_def mark_def Let_def fun_upd_twist)

lemma worker_idle:
  "\<not> should_terminate (pools s p) \<Longrightarrow> task_stack (pools s p) = [] \<Longrightarrow> worker p s = (Waiting, s)"
  by (subst worker.simps) simp

lemma wait_all_status_resumed3:
  "wait_all_status 9 0 [Some 0, Some 1, Some 2] resumed3 = (Returned [Error ''boom'', Ok, Ok], waited3)"
  by (simp add: waited3_def resumed3_def wait_all_status_def wait_or_work_def running3_eq
      wait_loop.simps wait_step_def lookup_tp_def task_done_def run_if_valid_def pt_valid_def
      pt_call_def upd_pool_def mark_def Let_def fun_upd_twist run_thread_def worker_rest_def
      worker_idle fun_upd_idem)

lemma await_Blocked_end:
  "await a xs s = (Blocked, s1) \<Longrightarrow> handles s1 a = None \<and> others s1 = []"
proof (induction xs arbitrary: s)
  case Nil
  then show ?case by (auto split: option.splits)
next
  case (Cons x xs)
  then show ?case by (cases "handles s a") auto
qed

lemma wait_all_status_loop_Blocked:
  "wait_all_status_loop tid this hs acc s = (Blocked, s') \<Longrightarrow>
   others s' = [] \<and> (\<exists>a. Some a \<in> set hs \<and> handles s' a = None)"
proof (induction hs arbitrary: acc s)
  case Nil
  then show ?case by simp
next
  case (Cons h hs)
  show ?case
  proof (cases h)
    case None
    then have "wait_all_status_loop tid this hs (acc @ [ThreadPoolError ''Invalid task future'']) s =
        (Blocked, s')"
      using Cons.prems by simp
    from Cons.IH [OF this] show ?thesis by auto
  next
    case (Some a)
    obtain o1 s1 where w: "wait_or_work tid this a s = (o1, s1)"
      by (cases "wait_or_work tid this a s")
    show ?thesis
    proof (cases o1)
      case (Returned st)
      then have "wait_all_status_loop tid this hs (acc @ [st]) s1 = (Blocked, s')"
        using Cons.prems Some w by simp
      from Cons.IH [OF this] show ?thesis by auto
    next
      case Blocked
      then have s': "s' = s1" using Cons.prems Some w by simp
      have "await a (others (wait_loop tid this a s)) (wait_loop tid this a s) = (Blocked, s1)"
        using w Blocked by (simp add: wait_or_work_def Let_def)
      from await_Blocked_end [OF this] show ?thesis using Some s' by auto
    qed
  qed
qed


text \<open>Every operation of the pool keeps the records in order.\<close>

lemma evolves_wait_all_status_loop:
  "records_ok s \<Longrightarrow> evolves s (snd (wait_all_status_loop tid this hs acc s))"
proof (induction hs arbitrary: acc s)
  case Nil
  then show ?case by (simp add: evolves_refl)
next
  case (Cons h hs)
  show ?case
  proof (cases h)
    case None
    then show ?thesis using Cons.IH [OF Cons.prems] by simp
  next
    case (Some a)
    obtain o1 s1 where w: "wait_or_work tid this a s = (o1, s1)"
      by (cases "wait_or_work tid this a s")
    have e1: "evolves s s1"
      using evolves_wait_or_work [OF Cons.prems, of tid this a] w by simp
    show ?thesis
    proof (cases o1)
      case (Returned st)
      have "evolves s1 (snd (wait_all_status_loop tid this hs (acc @ [st]) s1))"
        using evolves_records_ok [OF e1] by (rule Cons.IH)
      then show ?thesis using e1 Some w Returned by (simp add: evolves_trans)
    next
      case Blocked
      then show ?thesis using e1 Some w by simp
    qed
  qed
qed

lemma records_ok_wait_all_status:
  "records_ok s \<Longrightarrow> records_ok (snd (wait_all_status tid this hs s))"
  unfolding wait_all_status_def using evolves_wait_all_status_loop by (rule evolves_records_ok)

lemma records_ok_wait_all:
  assumes "records_ok s"
  shows "records_ok (snd (wait_all tid this hs s))"
proof -
  obtain o1 s1 where l: "wait_all_status tid this hs s = (o1, s1)"
    by (cases "wait_all_status tid this hs s")
  then have "snd (wait_all tid this hs s) = s1"
    by (cases o1) (simp_all add: wait_all_def)
  then show ?thesis using records_ok_wait_all_status [OF assms, of tid this hs] l by simp
qed

lemma records_ok_act: "records_ok s \<Longrightarrow> records_ok (act x s)"
  using evolves_act by (rule evolves_records_ok)

section \<open>The claims\<close>

text \<open>
  The claims of the specification are numbered C1 to C10. C2, the absence of deadlock
  when a closure submits children to the pool and waits for them while other threads
  run, is about concurrently running threads and about closures that call back into the
  pool; it has no statement here.
\<close>

text \<open>
  C1. Let \<open>host\<close> be what \<open>lookup_tp\<close> gives the waiting thread \<open>tid\<close>: the pool the
  registry has for \<open>tid\<close>, or the pool \<open>this\<close> on which \<open>wait_or_work\<close> was called when \<open>tid\<close> is
  not registered. Each round of the loop leaves the loop exactly when the awaited record is
  completed or the stack of \<open>host\<close> is empty, and otherwise pops the top of that stack and
  runs it. The whole loop pops some number \<open>k\<close> of tasks from the top of the stack of
  \<open>host\<close> and runs them in that order, the awaited record not being completed before any of
  these rounds; it ends with the record completed or that stack empty, and no other pool
  is touched, so a worker of a pool A waiting on a handle of a pool B leaves the stack of
  B alone. \<open>wait_or_work\<close> then waits for the record: it returns the recorded status at
  once when the record is completed; otherwise the stack of \<open>host\<close> is empty and the other
  threads run their schedule until the record is completed, and with no other thread to
  run it is blocked. It blocks only with the stack of \<open>host\<close> empty. The top of a stack is
  the task pushed last by \<open>execute\<close>.
\<close>

theorem wait_or_work_helps_host:
  assumes "host = lookup_tp tid this s" and "stk = task_stack (pools s host)"
    and "s' = wait_loop tid this a s"
  shows "(tp_index s tid = None \<longrightarrow> host = this) \<and>
    (\<forall>A. tp_index s tid = Some A \<longrightarrow> host = A) \<and>
    (wait_step tid this a s = None \<longleftrightarrow> task_done a s \<or> stk = []) \<and>
    (\<forall>s1. wait_step tid this a s = Some s1 \<longleftrightarrow>
        \<not> task_done a s \<and> stk \<noteq> [] \<and>
        s1 = run_if_valid (hd stk) (upd_pool host (\<lambda>p. p\<lparr>task_stack := tl stk\<rparr>) s)) \<and>
    (\<exists>k \<le> length stk.
        s' = fold run_if_valid (take k stk) (upd_pool host (\<lambda>p. p\<lparr>task_stack := drop k stk\<rparr>) s) \<and>
        (\<forall>j < k. \<not> task_done a (fold run_if_valid (take j stk) s)) \<and>
        (task_done a s' \<or> k = length stk)) \<and>
    (task_done a s' \<or> task_stack (pools s' host) = []) \<and>
    (\<forall>q. q \<noteq> host \<longrightarrow> pools s' q = pools s q) \<and>
    wait_or_work tid this a s = await a (others s') s' \<and>
    (\<forall>st. handles s' a = Some st \<longrightarrow> wait_or_work tid this a s = (Returned st, s')) \<and>
    (handles s' a = None \<longrightarrow> task_stack (pools s' host) = []) \<and>
    (others s = [] \<longrightarrow>
       wait_or_work tid this a s =
         (case handles s' a of None \<Rightarrow> (Blocked, s') | Some st \<Rightarrow> (Returned st, s'))) \<and>
    (fst (wait_or_work tid this a s) = Blocked \<longrightarrow> task_stack (pools s' host) = []) \<and>
    (1 < concurrency_level this s \<and> \<not> should_terminate (pools s this) \<longrightarrow>
       task_stack (pools (snd (execute this f s)) this) =
         \<lparr>fn = Some f, task_state = Some (next_handle s)\<rparr> # task_stack (pools s this))"
proof -
  have look: "(tp_index s tid = None \<longrightarrow> host = this) \<and> (\<forall>A. tp_index s tid = Some A \<longrightarrow> host = A)"
    by (simp add: assms(1) lookup_tp_def)
  have stepN: "wait_step tid this a s = None \<longleftrightarrow> task_done a s \<or> stk = []"
    by (simp add: wait_step_None assms(1,2))
  have stepS: "\<forall>s1. wait_step tid this a s = Some s1 \<longleftrightarrow>
        \<not> task_done a s \<and> stk \<noteq> [] \<and>
        s1 = run_if_valid (hd stk) (upd_pool host (\<lambda>p. p\<lparr>task_stack := tl stk\<rparr>) s)"
    by (simp add: wait_step_Some assms(1,2))
  have exk: "\<exists>k \<le> length stk.
        s' = fold run_if_valid (take k stk) (upd_pool host (\<lambda>p. p\<lparr>task_stack := drop k stk\<rparr>) s) \<and>
        (\<forall>j < k. \<not> task_done a (fold run_if_valid (take j stk) s)) \<and>
        (task_done a s' \<or> k = length stk)"
    unfolding assms by (rule wait_loop_folds)
  then obtain k where k: "k \<le> length stk"
    "s' = fold run_if_valid (take k stk) (upd_pool host (\<lambda>p. p\<lparr>task_stack := drop k stk\<rparr>) s)"
    "\<forall>j < k. \<not> task_done a (fold run_if_valid (take j stk) s)"
    "task_done a s' \<or> k = length stk"
    by blast
  have stk': "task_stack (pools s' host) = drop k stk"
    by (simp add: k(2))
  have fin: "task_done a s' \<or> task_stack (pools s' host) = []"
    using k(4) stk' by auto
  have other: "\<forall>q. q \<noteq> host \<longrightarrow> pools s' q = pools s q"
    by (simp add: k(2))
  have oth: "others s' = others s"
    by (simp add: k(2))
  have wow: "wait_or_work tid this a s = await a (others s') s'"
    unfolding assms(3) wait_or_work_def Let_def by (rule refl)
  have ret: "\<forall>st. handles s' a = Some st \<longrightarrow> wait_or_work tid this a s = (Returned st, s')"
    by (simp add: wow await_done)
  have emp: "handles s' a = None \<longrightarrow> task_stack (pools s' host) = []"
    using fin by (auto simp: task_done_def)
  have seq: "others s = [] \<longrightarrow>
       wait_or_work tid this a s =
         (case handles s' a of None \<Rightarrow> (Blocked, s') | Some st \<Rightarrow> (Returned st, s'))"
  proof
    assume "others s = []"
    then have e: "others s' = []" by (simp add: oth)
    then have "s'\<lparr>others := []\<rparr> = s'" by (metis sys.surjective sys.update_convs(8))
    then show "wait_or_work tid this a s =
         (case handles s' a of None \<Rightarrow> (Blocked, s') | Some st \<Rightarrow> (Returned st, s'))"
      by (simp add: wow e split: option.splits)
  qed
  have blk: "fst (wait_or_work tid this a s) = Blocked \<longrightarrow> task_stack (pools s' host) = []"
    using emp await_Blocked [of a "others s'" s'] by (simp add: wow)
  have push: "1 < concurrency_level this s \<and> \<not> should_terminate (pools s this) \<longrightarrow>
       task_stack (pools (snd (execute this f s)) this) =
         \<lparr>fn = Some f, task_state = Some (next_handle s)\<rparr> # task_stack (pools s this)"
    by (simp add: concurrency_level_def execute_def Let_def)
  show ?thesis
    by (intro conjI look [THEN conjunct1] look [THEN conjunct2] stepN stepS exk fin other wow
        ret emp seq blk push)
qed

theorem wait_or_work_helps_host_witness:
  "tp_index two_pools 0 = Some 0 \<and> lookup_tp 0 1 two_pools = 0 \<and>
   task_stack (pools two_pools 0) = [\<lparr>fn = Some (mark 2 Ok), task_state = Some 1\<rparr>,
                                     \<lparr>fn = Some (mark 1 Ok), task_state = Some 0\<rparr>] \<and>
   \<not> task_done 2 two_pools \<and>
   wait_step 0 1 2 two_pools =
     Some (run_if_valid \<lparr>fn = Some (mark 2 Ok), task_state = Some 1\<rparr>
            (upd_pool 0 (\<lambda>p. p\<lparr>task_stack := [\<lparr>fn = Some (mark 1 Ok), task_state = Some 0\<rparr>]\<rparr>) two_pools)) \<and>
   pools (wait_loop 0 1 2 two_pools) 1 = pools two_pools 1 \<and>
   task_stack (pools (wait_loop 0 1 2 two_pools) 0) = [] \<and>
   world (wait_loop 0 1 2 two_pools) = [2, 1] \<and>
   wait_or_work 0 1 2 two_pools = (Blocked, wait_loop 0 1 2 two_pools)"
proof -
  have a: "tp_index two_pools 0 = Some 0" "lookup_tp 0 1 two_pools = 0"
    "task_stack (pools two_pools 0) = [\<lparr>fn = Some (mark 2 Ok), task_state = Some 1\<rparr>,
                                      \<lparr>fn = Some (mark 1 Ok), task_state = Some 0\<rparr>]"
    "\<not> task_done 2 two_pools"
    by (simp_all add: two_pools_eq lookup_tp_def task_done_def)
  note th = wait_or_work_helps_host [of 0 0 1 two_pools _ "wait_loop 0 1 2 two_pools" 2 "mark 4 Ok",
      OF a(2) [symmetric] a(3) [symmetric] refl]
  have step: "wait_step 0 1 2 two_pools =
     Some (run_if_valid \<lparr>fn = Some (mark 2 Ok), task_state = Some 1\<rparr>
            (upd_pool 0 (\<lambda>p. p\<lparr>task_stack := [\<lparr>fn = Some (mark 1 Ok), task_state = Some 0\<rparr>]\<rparr>) two_pools))"
    using th a(4) by simp
  have other: "pools (wait_loop 0 1 2 two_pools) 1 = pools two_pools 1"
    using th by simp
  have emp: "task_stack (pools (wait_loop 0 1 2 two_pools) 0) = []"
    and wld: "world (wait_loop 0 1 2 two_pools) = [2, 1]"
    and nd: "handles (wait_loop 0 1 2 two_pools) 2 = None"
    by (unfold wait_loop_two_pools) (simp_all add: two_pools_eq)
  have oth: "others two_pools = []"
    by (simp add: two_pools_eq)
  note seq = th [THEN conjunct2, THEN conjunct2, THEN conjunct2, THEN conjunct2, THEN conjunct2,
      THEN conjunct2, THEN conjunct2, THEN conjunct2, THEN conjunct2, THEN conjunct2,
      THEN conjunct1, rule_format, OF oth]
  have blk: "wait_or_work 0 1 2 two_pools = (Blocked, wait_loop 0 1 2 two_pools)"
    by (simp only: seq nd option.case)
  show ?thesis
    by (intro conjI a step other emp wld blk)
qed

text \<open>
  C3, as stated: every work unit pushed before \<open>terminate\<close> is executed before \<open>terminate\<close>
  returns. It fails: pool 0 has one worker, which has not been scheduled since the two
  units were pushed; \<open>terminate\<close> returns after the worker has run the unit marked 2, and
  the unit marked 1 is still on the stack, its handle not completed and its closure not
  run.
\<close>

theorem terminate_abandons_counterexample:
  "fst (terminate 0 busy2) = Returned () \<and>
   task_stack (pools (snd (terminate 0 busy2)) 0) = [\<lparr>fn = Some (mark 1 Ok), task_state = Some 0\<rparr>] \<and>
   handles (snd (terminate 0 busy2)) 0 = None \<and>
   world (snd (terminate 0 busy2)) = [2]"
  by (simp add: busy2_eq terminate_def Let_def upd_pool_def remove_tp_index_def join_def
      run_thread_def worker_terminating worker_final_def worker_pop_def run_if_valid_def
      pt_valid_def pt_call_def mark_def)

text \<open>
  C3, amended. A worker that finds the terminate flag set pops and runs at most one more
  work unit and leaves its loop, whether or not the stack is empty; a worker that holds a
  unit when the flag is set finishes that unit and leaves its loop without popping; a
  worker that finds the flag not set runs until the stack is empty and then sleeps.
  \<open>terminate\<close> always returns. It has then waited for the units that its workers were
  running, which are completed, and it has executed at most one pending unit for each
  worker that was at the top of its loop, the topmost ones, which are completed as well;
  every unit below them is still on the stack, and the handle of every unit that was
  neither popped nor being run by a worker of the pool is untouched.
\<close>

theorem terminate_leaves_pending:
  "(should_terminate (pools s this) \<longrightarrow>
      fst (worker this s) = Exited \<and>
      task_stack (pools (snd (worker this s)) this) = tl (task_stack (pools s this)) \<and>
      (\<forall>task. worker_rest this task s = (Exited, run_if_valid task s))) \<and>
   (\<not> should_terminate (pools s this) \<longrightarrow>
      fst (worker this s) = Waiting \<and> task_stack (pools (snd (worker this s)) this) = []) \<and>
   (\<exists>s' k. terminate this s = (Returned (), s') \<and>
      k \<le> length (filter (idle s) (threads (pools s this))) \<and>
      task_stack (pools s' this) = drop k (task_stack (pools s this)) \<and>
      (\<forall>u \<in> set (take k (task_stack (pools s this))). \<forall>a. pt_valid u \<longrightarrow>
         task_state u = Some a \<longrightarrow> task_done a s') \<and>
      (\<forall>t \<in> set (threads (pools s this)). t \<notin> finished s \<longrightarrow>
         (\<forall>u a. running s t = Some u \<longrightarrow> pt_valid u \<longrightarrow> task_state u = Some a \<longrightarrow>
                task_done a s')) \<and>
      (\<forall>a. Some a \<notin> task_state ` set (take k (task_stack (pools s this))) \<longrightarrow>
           (\<forall>t \<in> set (threads (pools s this)). rptr s t \<noteq> Some a) \<longrightarrow>
           handles s' a = handles s a))"
proof -
  have "should_terminate (pools s this) \<longrightarrow>
      fst (worker this s) = Exited \<and>
      task_stack (pools (snd (worker this s)) this) = tl (task_stack (pools s this)) \<and>
      (\<forall>task. worker_rest this task s = (Exited, run_if_valid task s))"
    by (simp add: worker_terminating worker_final_stack worker_rest_terminating)
  moreover have "\<not> should_terminate (pools s this) \<longrightarrow>
      fst (worker this s) = Waiting \<and> task_stack (pools (snd (worker this s)) this) = []"
    using worker_drains [of s this] by simp
  moreover have "\<exists>s' k. terminate this s = (Returned (), s') \<and>
      k \<le> length (filter (idle s) (threads (pools s this))) \<and>
      task_stack (pools s' this) = drop k (task_stack (pools s this)) \<and>
      (\<forall>u \<in> set (take k (task_stack (pools s this))). \<forall>a. pt_valid u \<longrightarrow>
         task_state u = Some a \<longrightarrow> task_done a s') \<and>
      (\<forall>t \<in> set (threads (pools s this)). t \<notin> finished s \<longrightarrow>
         (\<forall>u a. running s t = Some u \<longrightarrow> pt_valid u \<longrightarrow> task_state u = Some a \<longrightarrow>
                task_done a s')) \<and>
      (\<forall>a. Some a \<notin> task_state ` set (take k (task_stack (pools s this))) \<longrightarrow>
           (\<forall>t \<in> set (threads (pools s this)). rptr s t \<noteq> Some a) \<longrightarrow>
           handles s' a = handles s a)"
    unfolding task_done_def using terminate_returns [of this s] by blast
  ultimately show ?thesis by blast
qed

theorem terminate_leaves_pending_witness:
  "should_terminate (pools stopping2 0) \<and> fst (worker 0 stopping2) = Exited \<and>
   task_stack (pools (snd (worker 0 stopping2)) 0) = [\<lparr>fn = Some (mark 1 Ok), task_state = Some 0\<rparr>] \<and>
   \<not> should_terminate (pools busy2 0) \<and> fst (worker 0 busy2) = Waiting \<and>
   task_stack (pools (snd (worker 0 busy2)) 0) = [] \<and>
   (\<exists>s'. terminate 0 busy2 = (Returned (), s') \<and> task_stack (pools s' 0) \<noteq> [] \<and>
         handles s' 0 = None) \<and>
   running running3 0 = Some \<lparr>fn = Some (mark 1 (Error ''boom'')), task_state = Some 0\<rparr> \<and>
   (\<exists>s'. terminate 0 running3 = (Returned (), s') \<and>
         task_stack (pools s' 0) = task_stack (pools running3 0) \<and>
         task_done 0 s' \<and> handles s' 1 = None \<and> handles s' 2 = None)"
proof -
  have a: "should_terminate (pools stopping2 0)"
    "tl (task_stack (pools stopping2 0)) = [\<lparr>fn = Some (mark 1 Ok), task_state = Some 0\<rparr>]"
    by (simp_all add: stopping2_def busy2_eq)
  have b: "\<not> should_terminate (pools busy2 0)"
    "task_stack (pools busy2 0) = [\<lparr>fn = Some (mark 2 Ok), task_state = Some 1\<rparr>,
                                  \<lparr>fn = Some (mark 1 Ok), task_state = Some 0\<rparr>]"
    "threads (pools busy2 0) = [0]" "handles busy2 0 = None" "rptr busy2 0 = None"
    by (simp_all add: busy2_eq rptr_def)
  from terminate_leaves_pending [of busy2 0] obtain s' k where t:
    "terminate 0 busy2 = (Returned (), s')"
    "k \<le> length (filter (idle busy2) (threads (pools busy2 0)))"
    "task_stack (pools s' 0) = drop k (task_stack (pools busy2 0))"
    "\<forall>a. Some a \<notin> task_state ` set (take k (task_stack (pools busy2 0))) \<longrightarrow>
         (\<forall>t \<in> set (threads (pools busy2 0)). rptr busy2 t \<noteq> Some a) \<longrightarrow>
         handles s' a = handles busy2 a"
    and w: "fst (worker 0 busy2) = Waiting" "task_stack (pools (snd (worker 0 busy2)) 0) = []"
    using b(1) by blast
  have k: "k = 0 \<or> k = 1" using t(2) b(3) by (auto split: if_splits)
  then have "task_stack (pools s' 0) \<noteq> []" using t(3) b(2) by auto
  moreover have "handles s' 0 = None"
  proof -
    have "Some 0 \<notin> task_state ` set (take k (task_stack (pools busy2 0)))"
      using k b(2) by auto
    then show ?thesis using t(4) b(3,4,5) by simp
  qed
  ultimately have c: "\<exists>s'. terminate 0 busy2 = (Returned (), s') \<and> task_stack (pools s' 0) \<noteq> [] \<and>
         handles s' 0 = None"
    using t(1) by blast
  have r: "running running3 0 = Some \<lparr>fn = Some (mark 1 (Error ''boom'')), task_state = Some 0\<rparr>"
    "threads (pools running3 0) = [0]" "0 \<notin> finished running3" "\<not> idle running3 0"
    "rptr running3 0 = Some 0" "handles running3 1 = None" "handles running3 2 = None"
    by (simp_all add: running3_eq idle_def rptr_def)
  from terminate_leaves_pending [of running3 0] obtain s3 k3 where t3:
    "terminate 0 running3 = (Returned (), s3)"
    "k3 \<le> length (filter (idle running3) (threads (pools running3 0)))"
    "task_stack (pools s3 0) = drop k3 (task_stack (pools running3 0))"
    "\<forall>t \<in> set (threads (pools running3 0)). t \<notin> finished running3 \<longrightarrow>
         (\<forall>u a. running running3 t = Some u \<longrightarrow> pt_valid u \<longrightarrow> task_state u = Some a \<longrightarrow>
                task_done a s3)"
    "\<forall>a. Some a \<notin> task_state ` set (take k3 (task_stack (pools running3 0))) \<longrightarrow>
         (\<forall>t \<in> set (threads (pools running3 0)). rptr running3 t \<noteq> Some a) \<longrightarrow>
         handles s3 a = handles running3 a"
    by blast
  have k3: "k3 = 0" using t3(2) r(2,4) by simp
  have d1: "task_stack (pools s3 0) = task_stack (pools running3 0)"
    using t3(3) k3 by simp
  have d2: "task_done 0 s3"
    using t3(4) r(1,2,3) by (simp add: pt_valid_def)
  have d3: "handles s3 1 = None" "handles s3 2 = None"
    using t3(5) k3 r(2,5,6,7) by simp_all
  have d: "\<exists>s'. terminate 0 running3 = (Returned (), s') \<and>
         task_stack (pools s' 0) = task_stack (pools running3 0) \<and>
         task_done 0 s' \<and> handles s' 1 = None \<and> handles s' 2 = None"
    using t3(1) d1 d2 d3 by blast
  have e: "fst (worker 0 stopping2) = Exited"
    "task_stack (pools (snd (worker 0 stopping2)) 0) = [\<lparr>fn = Some (mark 1 Ok), task_state = Some 0\<rparr>]"
    using terminate_leaves_pending [of stopping2 0] a by simp_all
  show ?thesis
    by (intro conjI a(1) e b(1) w c r(1) d)
qed

text \<open>
  C4, as stated: a failed \<open>init\<close> leaves the pool as it was before, so that a later \<open>init\<close>
  makes it work normally. It fails: after \<open>init(3)\<close> has failed on its second thread the
  terminate flag is set, which it is not in a pool that was never initialized; a later
  \<open>init(2)\<close> returns \<open>Ok\<close> and a submission still gets an invalid handle, whereas the
  same calls on a new pool give a valid one.
\<close>

theorem init_failure_counterexample:
  "fst (init (fails_at 1 ''Resource temporarily unavailable'') 0 3 fresh) =
     Returned (Error ''Error initializing thread pool of concurrencylevel 3; Resource temporarily unavailable'') \<and>
   should_terminate (pools failed3 0) \<and> \<not> should_terminate (pools fresh 0) \<and>
   fst (init no_failure 0 2 failed3) = Returned Ok \<and>
   fst (execute 0 (mark 1 Ok) (snd (init no_failure 0 2 failed3))) = None \<and>
   fst (init no_failure 0 2 fresh) = Returned Ok \<and>
   fst (execute 0 (mark 1 Ok) (snd (init no_failure 0 2 fresh))) = Some 0"
proof -
  have "fst (init (fails_at 1 ''Resource temporarily unavailable'') 0 3 fresh) =
     Returned (Error ''Error initializing thread pool of concurrencylevel 3; Resource temporarily unavailable'')"
    by (simp only: init_failed3 fst_conv)
  moreover have "should_terminate (pools failed3 0)"
    by (simp add: failed3_eq)
  moreover have "\<not> should_terminate (pools fresh 0)"
    by (simp add: sys0_def ThreadPool_def)
  moreover have "fst (init no_failure 0 2 failed3) = Returned Ok"
    by (simp only: init_after_failed3 fst_conv)
  moreover have "fst (execute 0 (mark 1 Ok) (snd (init no_failure 0 2 failed3))) = None"
    by (simp add: init_after_failed3 execute_def)
  moreover have "fst (init no_failure 0 2 fresh) = Returned Ok"
    by (simp only: init_pool2 fst_conv)
  moreover have "fst (execute 0 (mark 1 Ok) (snd (init no_failure 0 2 fresh))) = Some 0"
    by (simp add: init_pool2 execute_def get_future_def Let_def)
  ultimately show ?thesis by blast
qed

text \<open>
  C4, amended. If the first failing spawn of \<open>init(n)\<close> is round \<open>j\<close>, with message
  \<open>what\<close>, then \<open>init\<close> returns the error
  \<open>"Error initializing thread pool of concurrencylevel n; what"\<close>; every thread of the
  pool, those created in the rounds before \<open>j\<close> included, has been joined and is no longer
  registered; the thread list is empty and the stored concurrency level is what it was
  before the call. The terminate flag is set: the pool is terminated, not uninitialized,
  and after any later \<open>init\<close> every submission still returns an invalid handle.
\<close>

theorem init_failure_terminates_pool:
  assumes "j < n - 1" and "thr j = Some what" and "\<forall>i < j. thr i = None"
  shows "\<exists>s'. init thr this n s =
       (Returned (ThreadPoolError (''Error initializing thread pool of concurrencylevel '' @
                                   to_string n @ ''; '' @ what)), s') \<and>
     threads (pools s' this) = [] \<and>
     (\<forall>t \<in> set (threads (pools s this)) \<union> {next_tid s ..< next_tid s + j}.
          t \<in> finished s' \<and> tp_index s' t = None) \<and>
     concurrency_level this s' = concurrency_level this s \<and>
     should_terminate (pools s' this) \<and>
     (\<forall>thr' m f. fst (execute this f (snd (init thr' this m s'))) = None)"
proof -
  let ?s1 = "spawned this j s"
  have th: "set (threads (pools ?s1 this)) = set (threads (pools s this)) \<union> {next_tid s ..< next_tid s + j}"
    by (simp add: spawned_def)
  have cl: "concurrency_lvl (pools ?s1 this) = concurrency_lvl (pools s this)"
    by (simp add: spawned_def)
  from terminate_returns [of this ?s1] obtain s' where t:
    "terminate this ?s1 = (Returned (), s')"
    "should_terminate (pools s' this)"
    "threads (pools s' this) = []"
    "concurrency_lvl (pools s' this) = concurrency_lvl (pools ?s1 this)"
    "tp_index s' = (\<lambda>t. if t \<in> set (threads (pools ?s1 this)) then None else tp_index ?s1 t)"
    "finished s' = finished ?s1 \<union> set (threads (pools ?s1 this))"
    by blast
  have "init thr this n s =
       (Returned (ThreadPoolError (''Error initializing thread pool of concurrencylevel '' @
                                   to_string n @ ''; '' @ what)), s')"
    using init_fails [OF assms, of this s] t(1) by simp
  moreover have "\<forall>t \<in> set (threads (pools s this)) \<union> {next_tid s ..< next_tid s + j}.
          t \<in> finished s' \<and> tp_index s' t = None"
    using th by (simp add: t(5,6))
  moreover have "concurrency_level this s' = concurrency_level this s"
    using t(4) cl by (simp add: concurrency_level_def)
  moreover have "\<forall>thr' m f. fst (execute this f (snd (init thr' this m s'))) = None"
    using init_keeps_flag [OF t(2)] by (simp add: execute_rejects)
  ultimately show ?thesis using t(2,3) by blast
qed

theorem init_failure_terminates_pool_witness:
  "(1::nat) < 3 - 1 \<and>
   fails_at 1 ''Resource temporarily unavailable'' 1 = Some ''Resource temporarily unavailable'' \<and>
   (\<exists>s'. init (fails_at 1 ''Resource temporarily unavailable'') 0 3 fresh =
       (Returned (ThreadPoolError (''Error initializing thread pool of concurrencylevel '' @
                                   to_string 3 @ ''; '' @ ''Resource temporarily unavailable'')), s') \<and>
      threads (pools s' 0) = [] \<and> 0 \<in> finished s' \<and> tp_index s' 0 = None \<and>
      concurrency_level 0 s' = 0 \<and> should_terminate (pools s' 0) \<and>
      fst (execute 0 (mark 1 Ok) (snd (init no_failure 0 2 s'))) = None)"
proof -
  have a: "(1::nat) < 3 - 1"
    "fails_at 1 ''Resource temporarily unavailable'' 1 = Some ''Resource temporarily unavailable''"
    "\<forall>i < 1. fails_at 1 ''Resource temporarily unavailable'' i = None"
    by (simp_all add: fails_at_def)
  have b: "next_tid fresh = 0" "concurrency_level 0 fresh = 0"
    by (simp_all add: sys0_def concurrency_level_def ThreadPool_def)
  from init_failure_terminates_pool [OF a, of 0 fresh] obtain s' where s':
    "init (fails_at 1 ''Resource temporarily unavailable'') 0 3 fresh =
       (Returned (ThreadPoolError (''Error initializing thread pool of concurrencylevel '' @
                                   to_string 3 @ ''; '' @ ''Resource temporarily unavailable'')), s')"
    "threads (pools s' 0) = []"
    "\<forall>t \<in> set (threads (pools fresh 0)) \<union>
          {next_tid fresh ..< next_tid fresh + 1}.
          t \<in> finished s' \<and> tp_index s' t = None"
    "concurrency_level 0 s' = concurrency_level 0 fresh"
    "should_terminate (pools s' 0)"
    "\<forall>thr' m f. fst (execute 0 f (snd (init thr' 0 m s'))) = None"
    by blast
  have "0 \<in> finished s' \<and> tp_index s' 0 = None"
    using s'(3) b(1) by simp
  then show ?thesis
    using a(1,2) s'(1,2,5,6) s'(4) b(2) by auto
qed

text \<open>
  C5. The records being in order, when \<open>wait_all\<close> returns, \<open>wait_all_status\<close> has returned
  one status for each handle of the list, in the order of the list: for an invalid handle
  the status \<open>ThreadPoolError("Invalid task future")\<close>, and for a valid handle the status
  that its completion record holds on return; so every valid handle of the list is
  completed, those after the first error included: there is no short cut. The status
  returned is \<open>Ok\<close> when every one of these statuses is ok, and otherwise the first of them,
  in the order of the list, that is not ok. \<open>wait_all\<close> is blocked only on a record of the
  list that is not completed when no other thread is left to run. It does return when
  every valid handle of the list is completed or pending on the stack of the caller's host
  pool, whatever the other threads do; and it returns when the other threads are workers
  that go on and every valid handle is completed, pending on that stack or the handle of a
  unit that one of these workers is running.
\<close>

theorem wait_all_first_error:
  assumes "host = lookup_tp tid this s" and "records_ok s"
  shows "(\<forall>r s'. wait_all tid this hs s = (Returned r, s') \<longrightarrow>
      (\<exists>v. wait_all_status tid this hs s = (Returned v, s') \<and> length v = length hs \<and>
           (\<forall>i < length hs.
              (hs ! i = None \<longrightarrow> v ! i = ThreadPoolError ''Invalid task future'') \<and>
              (\<forall>a. hs ! i = Some a \<longrightarrow> task_done a s' \<and> handles s' a = Some (v ! i))) \<and>
           ((\<forall>st \<in> set v. ok st) \<longrightarrow> r = Ok) \<and>
           (\<forall>i < length v. \<not> ok (v ! i) \<and> (\<forall>j < i. ok (v ! j)) \<longrightarrow> r = v ! i))) \<and>
    (\<forall>s'. wait_all tid this hs s = (Blocked, s') \<longrightarrow>
       others s' = [] \<and> (\<exists>a. Some a \<in> set hs \<and> \<not> task_done a s')) \<and>
    ((\<forall>a. Some a \<in> set hs \<longrightarrow> pending_or_done host a s) \<longrightarrow>
       (\<exists>r s'. wait_all tid this hs s = (Returned r, s'))) \<and>
    (resume_only (others s) \<and> (\<forall>a. Some a \<in> set hs \<longrightarrow> covered host a (others s) s) \<longrightarrow>
       (\<exists>r s'. wait_all tid this hs s = (Returned r, s')))"
proof (intro conjI allI impI)
  fix r s'
  assume w: "wait_all tid this hs s = (Returned r, s')"
  obtain o1 s1 where l: "wait_all_status tid this hs s = (o1, s1)"
    by (cases "wait_all_status tid this hs s")
  obtain v where v: "o1 = Returned v"
    using w l by (cases o1) (simp_all add: wait_all_def)
  have r: "r = wait_all_loop v" and s': "s' = s1"
    using w l v by (simp_all add: wait_all_def)
  from l v have "wait_all_status_loop tid this hs [] s = (Returned v, s1)"
    by (simp add: wait_all_status_def)
  from wait_all_status_loop_results [OF assms(2) this]
  have len: "length v = length hs"
    and res: "\<forall>i < length hs.
        (hs ! i = None \<longrightarrow> v ! i = ThreadPoolError ''Invalid task future'') \<and>
        (\<forall>a. hs ! i = Some a \<longrightarrow> handles s1 a = Some (v ! i))"
    by auto
  have "wait_all_status tid this hs s = (Returned v, s')"
    using l v s' by simp
  moreover have "\<forall>i < length hs.
        (hs ! i = None \<longrightarrow> v ! i = ThreadPoolError ''Invalid task future'') \<and>
        (\<forall>a. hs ! i = Some a \<longrightarrow> task_done a s' \<and> handles s' a = Some (v ! i))"
    using res s' by (simp add: task_done_def)
  moreover have "(\<forall>st \<in> set v. ok st) \<longrightarrow> r = Ok"
    by (simp add: r wait_all_loop_all_ok)
  moreover have "\<forall>i < length v. \<not> ok (v ! i) \<and> (\<forall>j < i. ok (v ! j)) \<longrightarrow> r = v ! i"
    by (simp add: r wait_all_loop_first)
  ultimately show "\<exists>v. wait_all_status tid this hs s = (Returned v, s') \<and> length v = length hs \<and>
           (\<forall>i < length hs.
              (hs ! i = None \<longrightarrow> v ! i = ThreadPoolError ''Invalid task future'') \<and>
              (\<forall>a. hs ! i = Some a \<longrightarrow> task_done a s' \<and> handles s' a = Some (v ! i))) \<and>
           ((\<forall>st \<in> set v. ok st) \<longrightarrow> r = Ok) \<and>
           (\<forall>i < length v. \<not> ok (v ! i) \<and> (\<forall>j < i. ok (v ! j)) \<longrightarrow> r = v ! i)"
    using len by blast
next
  fix s'
  assume w: "wait_all tid this hs s = (Blocked, s')"
  obtain o1 s1 where l: "wait_all_status tid this hs s = (o1, s1)"
    by (cases "wait_all_status tid this hs s")
  have "o1 = Blocked" and "s1 = s'"
    using w l by (cases o1; simp add: wait_all_def)+
  then have "wait_all_status_loop tid this hs [] s = (Blocked, s')"
    using l by (simp add: wait_all_status_def)
  from wait_all_status_loop_Blocked [OF this]
  show "others s' = []" and "\<exists>a. Some a \<in> set hs \<and> \<not> task_done a s'"
    by (simp_all add: task_done_def)
next
  assume "\<forall>a. Some a \<in> set hs \<longrightarrow> pending_or_done host a s"
  then have "\<forall>a. Some a \<in> set hs \<longrightarrow> pending_or_done (lookup_tp tid this s) a s"
    by (simp add: assms(1))
  from wait_all_status_loop_total [OF this, of "[]"]
  show "\<exists>r s'. wait_all tid this hs s = (Returned r, s')"
    by (auto simp: wait_all_def wait_all_status_def)
next
  assume a: "resume_only (others s) \<and> (\<forall>a. Some a \<in> set hs \<longrightarrow> covered host a (others s) s)"
  then have "\<forall>a. Some a \<in> set hs \<longrightarrow> covered (lookup_tp tid this s) a (others s) s"
    by (simp add: assms(1))
  from wait_all_status_loop_resumes [OF assms(2) a [THEN conjunct1] this, of "[]"]
  show "\<exists>r s'. wait_all tid this hs s = (Returned r, s')"
    by (auto simp: wait_all_def wait_all_status_def)
qed

theorem wait_all_first_error_witness:
  "lookup_tp 9 0 mixed2 = 0 \<and> records_ok mixed2 \<and>
   pending_or_done 0 0 mixed2 \<and> pending_or_done 0 1 mixed2 \<and>
   wait_all 9 0 [Some 0, None, Some 1] mixed2 = (Returned (Error ''boom''), waited2) \<and>
   wait_all_status 9 0 [Some 0, None, Some 1] mixed2 =
     (Returned [Error ''boom'', ThreadPoolError ''Invalid task future'', Ok], waited2) \<and>
   task_done 0 waited2 \<and> handles waited2 1 = Some Ok \<and>
   lookup_tp 9 0 resumed3 = 0 \<and> records_ok resumed3 \<and> resume_only (others resumed3) \<and>
   covered 0 0 (others resumed3) resumed3 \<and> \<not> pending_or_done 0 0 resumed3 \<and>
   (\<exists>r s'. wait_all 9 0 [Some 0, Some 1, Some 2] resumed3 = (Returned r, s')) \<and>
   wait_all 9 0 [Some 0, Some 1, Some 2] resumed3 = (Returned (Error ''boom''), waited3)"
proof -
  have a: "lookup_tp 9 0 mixed2 = 0" "pending_or_done 0 0 mixed2" "pending_or_done 0 1 mixed2"
    by (simp_all add: mixed2_eq lookup_tp_def pending_or_done_def pt_valid_def)
  have b: "wait_all 9 0 [Some 0, None, Some 1] mixed2 = (Returned (Error ''boom''), waited2)"
    by (unfold wait_all_def wait_all_status_mixed2) (simp add: ok_def ThreadPoolError_def)
  note th = wait_all_first_error [OF a(1) [symmetric] records_ok_mixed2, of "[Some 0, None, Some 1]"]
  let ?hs = "[Some 0, None, Some (1::nat)]"
  have "\<exists>v. wait_all_status 9 0 ?hs mixed2 = (Returned v, waited2) \<and>
      (\<forall>i < length ?hs.
        (?hs ! i = None \<longrightarrow> v ! i = ThreadPoolError ''Invalid task future'') \<and>
        (\<forall>a. ?hs ! i = Some a \<longrightarrow> task_done a waited2 \<and> handles waited2 a = Some (v ! i)))"
    using th [THEN conjunct1, rule_format, OF b]
    by (elim exE conjE) (intro exI conjI, assumption+)
  then obtain v where v:
    "wait_all_status 9 0 ?hs mixed2 = (Returned v, waited2)"
    "\<forall>i < length ?hs.
        (?hs ! i = None \<longrightarrow> v ! i = ThreadPoolError ''Invalid task future'') \<and>
        (\<forall>a. ?hs ! i = Some a \<longrightarrow> task_done a waited2 \<and> handles waited2 a = Some (v ! i))"
    by blast
  have v': "v = [Error ''boom'', ThreadPoolError ''Invalid task future'', Ok]"
    using v(1) wait_all_status_mixed2 by simp
  from v(2) [rule_format, of 0, THEN conjunct2, rule_format, of 0]
    v(2) [rule_format, of 2, THEN conjunct2, rule_format, of 1]
  have c: "task_done 0 waited2" "handles waited2 1 = Some Ok"
    by (simp_all add: v')
  have d: "lookup_tp 9 0 resumed3 = 0" "resume_only (others resumed3)"
    "covered 0 0 (others resumed3) resumed3" "covered 0 1 (others resumed3) resumed3"
    "covered 0 2 (others resumed3) resumed3" "\<not> pending_or_done 0 0 resumed3"
    by (simp_all add: resumed3_def running3_eq lookup_tp_def covered_def resumed_def
        pending_or_done_def pt_valid_def)
  have e: "\<forall>a. Some a \<in> set [Some 0, Some 1, Some 2] \<longrightarrow> covered 0 a (others resumed3) resumed3"
    using d(3,4,5) by simp
  have f: "\<exists>r s'. wait_all 9 0 [Some 0, Some 1, Some 2] resumed3 = (Returned r, s')"
    by (rule wait_all_first_error [OF d(1) [symmetric] records_ok_resumed3,
          of "[Some 0, Some 1, Some 2]", THEN conjunct2, THEN conjunct2, THEN conjunct2,
          rule_format, OF conjI [OF d(2) e]])
  have g: "wait_all 9 0 [Some 0, Some 1, Some 2] resumed3 = (Returned (Error ''boom''), waited3)"
    by (unfold wait_all_def wait_all_status_resumed3) (simp add: ok_def)
  show ?thesis
    by (intro conjI a records_ok_mixed2 b wait_all_status_mixed2 c d(1,2,3,6) records_ok_resumed3 f g)
qed




text \<open>
  C7. On a pool whose concurrency level is 1 and that has not been terminated,
  \<open>execute\<close> runs the closure itself, on the caller: the future it returns is valid and
  already completed, holding the status that the closure returned on the world of the
  call; the world is the one the closure left; no pool has changed, so nothing was pushed
  on any stack; no other completion record has changed.
\<close>

theorem execute_runs_synchronously:
  assumes "concurrency_level this s = 1" and "\<not> should_terminate (pools s this)"
  shows "\<exists>s'. execute this f s = (Some (next_handle s), s') \<and>
     task_valid (Some (next_handle s)) \<and>
     task_done (next_handle s) s' \<and>
     handles s' (next_handle s) = Some (fst (f (world s))) \<and>
     world s' = snd (f (world s)) \<and>
     pools s' = pools s \<and>
     tp_index s' = tp_index s \<and>
     finished s' = finished s \<and>
     (\<forall>a. a \<noteq> next_handle s \<longrightarrow> handles s' a = handles s a)"
  using assms
  by (simp add: concurrency_level_def execute_def Let_def get_future_def pt_call_def
      task_valid_def task_done_def)

theorem execute_runs_synchronously_witness:
  "concurrency_level 0 pool1 = 1 \<and> \<not> should_terminate (pools pool1 0) \<and>
   (\<exists>s'. execute 0 (mark 7 (Error ''boom'')) pool1 = (Some 0, s') \<and> task_done 0 s' \<and>
         handles s' 0 = Some (Error ''boom'') \<and> world s' = [7] \<and>
         task_stack (pools s' 0) = [] \<and> handles s' 1 = None)"
proof -
  have a: "concurrency_level 0 pool1 = 1" "\<not> should_terminate (pools pool1 0)"
    by (simp_all add: pool1_eq concurrency_level_def)
  have b: "next_handle pool1 = 0" "world pool1 = []" "task_stack (pools pool1 0) = []"
    "handles pool1 1 = None"
    by (simp_all add: pool1_eq)
  show ?thesis
    using execute_runs_synchronously [OF a, of "mark 7 (Error ''boom'')"] a b
    by (auto simp: mark_def)
qed

text \<open>
  C8, as stated: a wait on the invalid handle returns \<open>Error("invalid task future")\<close>. It
  fails on the message: the submission to a pool that was never initialized returns the
  invalid handle, and \<open>wait_all\<close> on it returns the error whose message is
  \<open>"Invalid task future"\<close>, which is another status.
\<close>

theorem invalid_wait_message_counterexample:
  "fst (execute 0 (mark 1 Ok) fresh) = None \<and>
   fst (wait_all 9 0 [fst (execute 0 (mark 1 Ok) fresh)] (snd (execute 0 (mark 1 Ok) fresh))) =
     Returned (Error ''Invalid task future'') \<and>
   fst (wait_all 9 0 [fst (execute 0 (mark 1 Ok) fresh)] (snd (execute 0 (mark 1 Ok) fresh))) \<noteq>
     Returned (Error ''invalid task future'')"
  by (simp add: execute_def sys0_def ThreadPool_def wait_all_def wait_all_status_def
      ThreadPoolError_def ok_def)

text \<open>
  C8, amended. On a pool whose concurrency level is 0, or whose terminate flag is set,
  \<open>execute\<close> returns the invalid future and changes nothing; \<open>wait_all_status\<close> on that
  future returns the one status \<open>ThreadPoolError("Invalid task future")\<close> and \<open>wait_all\<close>
  returns that status, both without blocking and without changing the state. The flag
  is set in the state that \<open>terminate\<close> leaves, and a later \<open>init\<close> does not reset it.
\<close>

theorem execute_refused_invalid:
  assumes "concurrency_level this s = 0 \<or> should_terminate (pools s this)"
  shows "execute this f s = (None, s) \<and>
     \<not> task_valid (fst (execute this f s)) \<and>
     wait_all_status tid q [fst (execute this f s)] s =
       (Returned [ThreadPoolError ''Invalid task future''], s) \<and>
     wait_all tid q [fst (execute this f s)] s =
       (Returned (ThreadPoolError ''Invalid task future''), s) \<and>
     should_terminate (pools (snd (terminate this s0)) this) \<and>
     (should_terminate (pools s this) \<longrightarrow> should_terminate (pools (snd (init thr this m s)) this))"
proof -
  have e: "execute this f s = (None, s)"
    using assms by (simp add: execute_rejects concurrency_level_def)
  have "should_terminate (pools (snd (terminate this s0)) this)"
    using terminate_returns [of this s0] by auto
  then show ?thesis
    using init_keeps_flag [of s this thr m]
    by (simp add: e task_valid_def wait_all_status_def wait_all_def)
qed

theorem execute_refused_invalid_witness:
  "concurrency_level 0 fresh = 0 \<and> execute 0 (mark 1 Ok) fresh = (None, fresh) \<and>
   wait_all 9 0 [fst (execute 0 (mark 1 Ok) fresh)] fresh =
     (Returned (ThreadPoolError ''Invalid task future''), fresh) \<and>
   concurrency_level 0 (snd (terminate 0 pool2)) = 2 \<and>
   should_terminate (pools (snd (terminate 0 pool2)) 0) \<and>
   execute 0 (mark 1 Ok) (snd (terminate 0 pool2)) = (None, snd (terminate 0 pool2)) \<and>
   wait_all_status 9 0 [fst (execute 0 (mark 1 Ok) (snd (terminate 0 pool2)))] (snd (terminate 0 pool2)) =
     (Returned [ThreadPoolError ''Invalid task future''], snd (terminate 0 pool2))"
proof -
  have a: "concurrency_level 0 fresh = 0"
    by (simp add: sys0_def concurrency_level_def ThreadPool_def)
  then have a': "concurrency_level 0 fresh = 0 \<or> should_terminate (pools fresh 0)" by simp
  let ?t = "snd (terminate 0 pool2)"
  have c: "concurrency_level 0 ?t = 2"
    using terminate_returns [of 0 pool2] by (auto simp: concurrency_level_def pool2_eq)
  note u = execute_refused_invalid [OF a', of "mark 1 Ok" 9 0 pool2 no_failure 0]
  have b: "should_terminate (pools ?t 0)"
    using u by blast
  then have b': "concurrency_level 0 ?t = 0 \<or> should_terminate (pools ?t 0)" by simp
  note v = execute_refused_invalid [OF b', of "mark 1 Ok" 9 0 pool2 no_failure 0]
  show ?thesis
    using u v a b c by blast
qed

text \<open>
  C9. \<open>terminate\<close> is idempotent and always succeeds: from every state the call returns
  (it is never blocked), and a second call returns as well and leaves the state of the
  whole system exactly as the first call left it. After the first call the terminate flag
  of the pool is set, its thread list is empty and every thread that was in the list has
  no registry entry; where every registry entry belonged to a listed thread, no entry
  names the pool any more.
\<close>

theorem terminate_idempotent:
  "\<exists>s'. terminate this s = (Returned (), s') \<and>
        terminate this s' = (Returned (), s') \<and>
        should_terminate (pools s' this) \<and>
        threads (pools s' this) = [] \<and>
        (\<forall>t \<in> set (threads (pools s this)). tp_index s' t = None) \<and>
        (registry_ok s \<longrightarrow> (\<forall>t. tp_index s' t \<noteq> Some this))"
proof -
  from terminate_returns [of this s] obtain s' k where t:
    "terminate this s = (Returned (), s')"
    "should_terminate (pools s' this)"
    "threads (pools s' this) = []"
    "tp_index s' = (\<lambda>t. if t \<in> set (threads (pools s this)) then None else tp_index s t)"
    by blast
  have "terminate this s' = (Returned (), s')"
    using t(2,3) by (rule terminate_idle)
  moreover have "\<forall>t \<in> set (threads (pools s this)). tp_index s' t = None"
    by (simp add: t(4))
  moreover have "registry_ok s \<longrightarrow> (\<forall>t. tp_index s' t \<noteq> Some this)"
    by (auto simp: t(4) registry_ok_def)
  ultimately show ?thesis using t(1-3) by blast
qed

theorem terminate_idempotent_witness:
  "registry_ok busy2 \<and> 0 \<in> set (threads (pools busy2 0)) \<and> tp_index busy2 0 = Some 0 \<and>
   (\<exists>s'. terminate 0 busy2 = (Returned (), s') \<and> terminate 0 s' = (Returned (), s') \<and>
         should_terminate (pools s' 0) \<and> threads (pools s' 0) = [] \<and>
         tp_index s' 0 = None \<and> (\<forall>t. tp_index s' t \<noteq> Some 0))"
proof -
  have r: "registry_ok busy2"
    by (simp add: registry_ok_def busy2_eq)
  have m: "0 \<in> set (threads (pools busy2 0))" "tp_index busy2 0 = Some 0"
    by (simp_all add: busy2_eq)
  show ?thesis
    using terminate_idempotent [of 0 busy2] r m by blast
qed

text \<open>
  C10. On a pool that is already initialized, \<open>init(m)\<close> with \<open>m \<ge> 1\<close>, all of whose spawns
  succeed, returns \<open>Ok\<close>; it appends \<open>m - 1\<close> new threads to the existing ones, joins none
  (the set of finished threads is unchanged), leaves the terminate flag and the stack as
  they were, has every old and new thread registered for the pool, and stores \<open>m\<close>, which
  \<open>concurrency_level\<close> then returns.
\<close>

theorem init_again_adds_workers:
  assumes "1 \<le> m" and "\<forall>i < m - 1. thr i = None"
  shows "\<exists>s'. init thr this m s = (Returned Ok, s') \<and>
     threads (pools s' this) = threads (pools s this) @ [next_tid s ..< next_tid s + (m - 1)] \<and>
     concurrency_level this s' = m \<and>
     finished s' = finished s \<and>
     should_terminate (pools s' this) = should_terminate (pools s this) \<and>
     task_stack (pools s' this) = task_stack (pools s this) \<and>
     (\<forall>t \<in> set (threads (pools s this)). tp_index s' t = Some this) \<and>
     (\<forall>t \<in> {next_tid s ..< next_tid s + (m - 1)}. tp_index s' t = Some this) \<and>
     (\<forall>q. q \<noteq> this \<longrightarrow> pools s' q = pools s q)"
proof -
  let ?s' = "add_tp_index this (upd_pool this (\<lambda>p. p\<lparr>concurrency_lvl := m\<rparr>) (spawned this (m - 1) s))"
  have "init thr this m s = (Returned Ok, ?s')"
    using assms by (rule init_ok)
  moreover have "threads (pools ?s' this) = threads (pools s this) @ [next_tid s ..< next_tid s + (m - 1)]"
    "concurrency_level this ?s' = m"
    "should_terminate (pools ?s' this) = should_terminate (pools s this)"
    "task_stack (pools ?s' this) = task_stack (pools s this)"
    "\<forall>q. q \<noteq> this \<longrightarrow> pools ?s' q = pools s q"
    by (simp_all add: spawned_def concurrency_level_def)
  moreover have "finished ?s' = finished s"
    by (simp add: add_tp_index_def spawned_def)
  moreover have "\<forall>t \<in> set (threads (pools s this)). tp_index ?s' t = Some this"
    "\<forall>t \<in> {next_tid s ..< next_tid s + (m - 1)}. tp_index ?s' t = Some this"
    by (simp_all add: tp_index_add spawned_def)
  ultimately show ?thesis by blast
qed

theorem init_again_adds_workers_witness:
  "concurrency_level 0 pool2 = 2 \<and> threads (pools pool2 0) = [0] \<and>
   (\<exists>s'. init no_failure 0 3 pool2 = (Returned Ok, s') \<and> threads (pools s' 0) = [0, 1, 2] \<and>
         concurrency_level 0 s' = 3 \<and> finished s' = {} \<and> \<not> should_terminate (pools s' 0) \<and>
         tp_index s' 0 = Some 0 \<and> tp_index s' 1 = Some 0 \<and> tp_index s' 2 = Some 0)"
proof -
  have a: "(1::nat) \<le> 3" "\<forall>i < 3 - 1. no_failure i = None"
    by (simp_all add: no_failure_def)
  have b: "concurrency_level 0 pool2 = 2" "threads (pools pool2 0) = [0]" "next_tid pool2 = 1"
    "finished pool2 = {}" "\<not> should_terminate (pools pool2 0)"
    by (simp_all add: pool2_eq concurrency_level_def)
  have c: "[1 ..< 1 + (3 - 1)] = [1, 2::nat]" "{1 ..< 1 + (3 - 1)} = {1, 2::nat}"
    by (auto simp: upt_conv_Cons)
  show ?thesis
    using init_again_adds_workers [OF a, of 0 pool2] b c by auto
qed

end
